theory Spec2Isabelle
  imports Complex_Main
begin

section \<open>Smooth bouncing of Leaflet markers\<close>

text \<open>
  A model of \<open>leaflet.smoothmarkerbouncing.js\<close>, function by function, and the properties
  of it that are proved below. The conventions:
  \<^item> A call that returns a value \<open>v\<close> is \<open>Some v\<close>; a call that does not return, because a
    loop never meets its exit test, is \<open>None\<close>. Loops that can do so are partial functions
    in the option monad, so that not returning is derived from the loop and not written in.
    A loop that would only stop when the engine runs out of memory counts as not returning.
  \<^item> A call that raises is \<open>Inl\<close> of the exception, one that returns normally is \<open>Inr\<close>.
  \<^item> Module variables and objects are explicit state: the cache, the prototype's options,
    the marker objects in a store indexed by reference, the registry, the pending timers.
  \<^item> Extents, speeds, delays and pixel coordinates are integers. \<open>Math.round\<close> of a
    quotient of two of them is exact in double precision for all magnitudes below \<open>2^52\<close>,
    and is written with integer division.
  \<^item> The style of the icon and of the shadow, which the step callbacks write, is not part
    of the state.
\<close>

section \<open>JavaScript values and arrays\<close>

text \<open>
  A number is an integer, or \<open>None\<close> for a value that is not a finite number
  (\<open>undefined\<close>, \<open>NaN\<close>, an infinity). A JavaScript array is a list of optional cells,
  so that a hole of a sparse array reads as \<open>undefined\<close>.
\<close>

type_synonym jsnum = "int option"

text \<open>\<open>a + b\<close> on numbers: anything that is not a finite number poisons the sum.\<close>

definition js_add :: "jsnum \<Rightarrow> jsnum \<Rightarrow> jsnum" where
  "js_add a b = (case a of None \<Rightarrow> None | Some m \<Rightarrow> (case b of None \<Rightarrow> None | Some n \<Rightarrow> Some (m + n)))"

text \<open>
  \<open>Math.round(s / k)\<close> for integers \<open>s\<close> and \<open>k\<close>: the nearest integer, a tie going
  towards plus infinity. Division by zero gives an infinity or \<open>NaN\<close>.
\<close>

definition js_round_div :: "int \<Rightarrow> int \<Rightarrow> jsnum" where
  "js_round_div s k = (if k = 0 then None else Some ((2 * s + k) div (2 * k)))"

text \<open>\<open>xs[i]\<close>: a hole and an index outside the array both read as \<open>undefined\<close>.\<close>

definition js_index :: "'a option list \<Rightarrow> int \<Rightarrow> 'a option" where
  "js_index xs i = (if 0 \<le> i \<and> nat i < length xs then xs ! nat i else None)"

text \<open>
  \<open>xs[i] = v\<close>: inside the array the cell is replaced; beyond its end the array grows and
  the cells in between are holes; a negative \<open>i\<close> names a property of the object and leaves
  the cells alone.
\<close>

definition js_assign :: "'a option list \<Rightarrow> int \<Rightarrow> 'a option \<Rightarrow> 'a option list" where
  "js_assign xs i v =
     (if i < 0 then xs
      else if nat i < length xs then xs[nat i := v]
      else xs @ replicate (nat i - length xs) None @ [v])"

text \<open>\<open>String(n)\<close> for an integer \<open>n\<close>: decimal digits, a minus sign in front of a negative one.\<close>

definition digit_char :: "nat \<Rightarrow> char" where
  "digit_char d = ''0123456789'' ! d"

fun digits :: "nat \<Rightarrow> string" where
  "digits n = (if n < 10 then [digit_char n] else digits (n div 10) @ [digit_char (n mod 10)])"

declare digits.simps [simp del]

definition js_string :: "int \<Rightarrow> string" where
  "js_string n = (if n < 0 then CHR ''-'' # digits (nat (- n)) else digits (nat n))"

section \<open>Timeline calculator\<close>

text \<open>\<open>_bouncingMotionsCache\<close>: an object used as a dictionary from key strings to arrays.\<close>

type_synonym cache = "string \<rightharpoonup> jsnum list"

text \<open>\<open>i = 1; while (i <= height) { steps.push(i++); }\<close>\<close>

function steps_up :: "int \<Rightarrow> int \<Rightarrow> jsnum list \<Rightarrow> jsnum list" where
  "steps_up height i steps =
     (if i \<le> height then steps_up height (i + 1) (steps @ [Some i]) else steps)"
  by pat_completeness auto
termination
  by (relation "measure (\<lambda>(height, i, steps). nat (height + 1 - i))") auto

declare steps_up.simps [simp del]

text \<open>
  \<open>while (i--) { steps.push(i); }\<close>: the test reads \<open>i\<close> and then decrements it, the body
  sees the decremented value. From a negative \<open>i\<close> the loop never reaches zero.
\<close>

partial_function (option) steps_down :: "int \<Rightarrow> jsnum list \<Rightarrow> jsnum list option" where
  "steps_down i steps =
     (if i \<noteq> 0 then steps_down (i - 1) (steps @ [Some (i - 1)]) else Some steps)"

declare steps_down.simps [code]

text \<open>The body of \<open>calculateSteps\<close> after the cache check and before the cache store.\<close>

definition compute_steps :: "int \<Rightarrow> jsnum list option" where
  "compute_steps height = steps_down height (steps_up height 1 [])"

text \<open>
  \<open>calculateSteps(height, prefix)\<close>, with the cache passed in and returned. An array is
  truthy, so any cached entry is returned as it is. \<open>None\<close>: the call does not return.
\<close>

definition calculateSteps :: "cache \<Rightarrow> int \<Rightarrow> string \<Rightarrow> (jsnum list \<times> cache) option" where
  "calculateSteps c height prefix =
     (let key = prefix @ js_string height in
      case c key of
        Some cached \<Rightarrow> Some (cached, c)
      | None \<Rightarrow>
          (case compute_steps height of
             None \<Rightarrow> None
           | Some steps \<Rightarrow> Some (steps, c(key \<mapsto> steps))))"

text \<open>
  \<open>i = height; while (--i) { deltas[i] = Math.round(speed / (height - i)); }\<close>: \<open>i\<close> is
  decremented first and the loop ends when it becomes zero.
\<close>

partial_function (option) deltas_fill :: "int \<Rightarrow> int \<Rightarrow> int \<Rightarrow> jsnum list \<Rightarrow> jsnum list option" where
  "deltas_fill height speed i deltas =
     (if i - 1 \<noteq> 0
      then deltas_fill height speed (i - 1)
             (js_assign deltas (i - 1) (js_round_div speed (height - (i - 1))))
      else Some deltas)"

declare deltas_fill.simps [code]

text \<open>\<open>i = height; while (i--) { deltas.push(deltas[i]); }\<close>\<close>

partial_function (option) deltas_mirror :: "int \<Rightarrow> jsnum list \<Rightarrow> jsnum list option" where
  "deltas_mirror i deltas =
     (if i \<noteq> 0 then deltas_mirror (i - 1) (deltas @ [js_index deltas (i - 1)]) else Some deltas)"

declare deltas_mirror.simps [code]

text \<open>
  \<open>for (i = 0, l = deltas.length; i < l; i++) { totalDelay += deltas[i];
  delays.push(totalDelay); }\<close>, by recursion on the cells still to visit.
\<close>

fun cumulate :: "jsnum \<Rightarrow> jsnum list \<Rightarrow> jsnum list" where
  "cumulate totalDelay [] = []"
| "cumulate totalDelay (d # ds) = js_add totalDelay d # cumulate (js_add totalDelay d) ds"

text \<open>The body of \<open>calculateDelays\<close> after the cache check and before the cache store.\<close>

definition compute_delays :: "int \<Rightarrow> int \<Rightarrow> jsnum list option" where
  "compute_delays height speed =
     (case deltas_fill height speed height (js_assign (js_assign [] height (Some speed)) 0 (Some 0)) of
        None \<Rightarrow> None
      | Some deltas1 \<Rightarrow>
          (case deltas_mirror height deltas1 of
             None \<Rightarrow> None
           | Some deltas \<Rightarrow> Some (cumulate (Some 0) deltas)))"

definition calculateDelays :: "cache \<Rightarrow> int \<Rightarrow> int \<Rightarrow> string \<Rightarrow> (jsnum list \<times> cache) option" where
  "calculateDelays c height speed prefix =
     (let key = prefix @ js_string height @ ''_'' @ js_string speed in
      case c key of
        Some cached \<Rightarrow> Some (cached, c)
      | None \<Rightarrow>
          (case compute_delays height speed of
             None \<Rightarrow> None
           | Some delays \<Rightarrow> Some (delays, c(key \<mapsto> delays))))"

text \<open>
  Both functions are private to the module and \<open>_calculateTimeline\<close> is their only caller. It
  passes \<open>'moveSteps_'\<close> and \<open>'resizeSteps_'\<close> to \<open>calculateSteps\<close>, \<open>'moveDelays_'\<close> and
  \<open>'resizeDelays_'\<close> to \<open>calculateDelays\<close>.
\<close>

definition steps_prefixes :: "string set" where
  "steps_prefixes = {''moveSteps_'', ''resizeSteps_''}"

definition delays_prefixes :: "string set" where
  "delays_prefixes = {''moveDelays_'', ''resizeDelays_''}"

text \<open>
  The caches the module can hold: empty when the script is loaded, then filled by the calls
  of \<open>_calculateTimeline\<close> that returned.
\<close>

inductive timeline_cache :: "cache \<Rightarrow> bool" where
  fresh: "timeline_cache Map.empty"
| after_steps:
    "timeline_cache c \<Longrightarrow> prefix \<in> steps_prefixes \<Longrightarrow>
     calculateSteps c height prefix = Some (steps, c') \<Longrightarrow> timeline_cache c'"
| after_delays:
    "timeline_cache c \<Longrightarrow> prefix \<in> delays_prefixes \<Longrightarrow>
     calculateDelays c height speed prefix = Some (delays, c') \<Longrightarrow> timeline_cache c'"

text \<open>
  What a call may find under its key: nothing, or an entry of a cache that the module built
  with the prefixes above.
\<close>

definition steps_key_ok :: "cache \<Rightarrow> int \<Rightarrow> string \<Rightarrow> bool" where
  "steps_key_ok c height prefix \<longleftrightarrow>
     c (prefix @ js_string height) = None \<or> (timeline_cache c \<and> prefix \<in> steps_prefixes)"

definition delays_key_ok :: "cache \<Rightarrow> int \<Rightarrow> int \<Rightarrow> string \<Rightarrow> bool" where
  "delays_key_ok c height speed prefix \<longleftrightarrow>
     c (prefix @ js_string height @ ''_'' @ js_string speed) = None \<or>
     (timeline_cache c \<and> prefix \<in> delays_prefixes)"

section \<open>Auxiliary notions for the proofs about the timeline\<close>

text \<open>Running totals of a list of integers, starting from \<open>t\<close>.\<close>

fun running_sums :: "int \<Rightarrow> int list \<Rightarrow> int list" where
  "running_sums t [] = []"
| "running_sums t (x # xs) = (t + x) # running_sums (t + x) xs"

text \<open>
  The deltas of one direction of the movement, positions \<open>0\<close> to \<open>h\<close>, and the whole
  sequence once the way back is appended.
\<close>

definition outbound :: "int \<Rightarrow> int \<Rightarrow> int list" where
  "outbound h s =
     map (\<lambda>j. if j = 0 then 0 else if int j = h then s
               else (2 * s + (h - int j)) div (2 * (h - int j))) [0..<Suc (nat h)]"

definition mirrored :: "int \<Rightarrow> int \<Rightarrow> int list" where
  "mirrored h s = outbound h s @ rev (take (nat h) (outbound h s))"

text \<open>Every cached array is what the body of its function computes for the key's numbers.\<close>

definition cache_ok :: "cache \<Rightarrow> bool" where
  "cache_ok c \<longleftrightarrow> (\<forall>k v. c k = Some v \<longrightarrow>
     (\<exists>p h. p \<in> steps_prefixes \<and> k = p @ js_string h \<and> compute_steps h = Some v) \<or>
     (\<exists>p h s. p \<in> delays_prefixes \<and> k = p @ js_string h @ ''_'' @ js_string s \<and>
        compute_delays h s = Some v))"

section \<open>Geometry\<close>

text \<open>A point \<open>[x, y]\<close> in pixels.\<close>

type_synonym point = "int \<times> int"

text \<open>
  The loop of \<open>calculateLine\<close>: push the current point, count it, leave when \<open>length\<close> points
  have been pushed, otherwise take one Bresenham step. \<open>e2\<close> is the value of \<open>err\<close> on entry,
  which both tests read. The counter is compared with \<open>===\<close>, so from a \<open>length\<close> below 1 it is
  never met.
\<close>

partial_function (option) line_loop ::
  "int \<Rightarrow> int \<Rightarrow> int \<Rightarrow> int \<Rightarrow> int \<Rightarrow> int \<Rightarrow> int \<Rightarrow> rat \<Rightarrow> int \<Rightarrow> point list \<Rightarrow> point list option" where
  "line_loop dx sx dy sy len x y err i p =
     (if i + 1 = len then Some (p @ [(x, y)])
      else line_loop dx sx dy sy len
             (if err > - of_int dx then x + sx else x)
             (if err < of_int dy then y + sy else y)
             ((if err > - of_int dx then err - of_int dy else err)
                + (if err < of_int dy then of_int dx else 0))
             (i + 1)
             (p @ [(x, y)]))"

declare line_loop.simps [code]

text \<open>\<open>calculateLine\<close> from the rounded end point \<open>(xD, yD)\<close> on.\<close>

definition calculateLine_to :: "int \<Rightarrow> int \<Rightarrow> int \<Rightarrow> int \<Rightarrow> int \<Rightarrow> point list option" where
  "calculateLine_to x y xD yD len =
     (let dx = \<bar>xD - x\<bar>;
          sx = (if x < xD then 1 else - 1);
          dy = \<bar>yD - y\<bar>;
          sy = (if y < yD then 1 else - 1);
          err = of_int (if dx > dy then dx else - dy) / 2
      in line_loop dx sx dy sy len x y err 0 [])"

text \<open>
  \<open>calculateLine(x, y, angle, length)\<close>. The end point is computed on the reals here and in
  double precision in the browser; the two may round to different pixels, which is why the
  properties of the line below are proved for every end point.
\<close>

definition calculateLine :: "int \<Rightarrow> int \<Rightarrow> real \<Rightarrow> int \<Rightarrow> point list option" where
  "calculateLine x y angle len =
     calculateLine_to x y
       (round (of_int x + cos angle * of_int (len * 2)))
       (round (of_int y + sin angle * of_int (len * 2)))
       len"

section \<open>Motion compiler\<close>

text \<open>The exceptions the code can raise.\<close>

datatype error = ReferenceError | TypeError

text \<open>
  A transformation definition \<open>' matrix3d(a,0,0,0,0,b,0,0,0,0,1,0,c,d,0,1) '\<close>: the text is
  determined by the two scale factors and the two translations. A scale factor is a quotient;
  \<open>None\<close> is a quotient by zero.
\<close>

record transform =
  scaleX :: "rat option"
  scaleY :: "rat option"
  translateX :: int
  translateY :: int

definition js_div :: "int \<Rightarrow> int \<Rightarrow> rat option" where
  "js_div a b = (if b = 0 then None else Some (of_int a / of_int b))"

text \<open>
  The ``fast inverse while loop'' that fills every array of the compiler:
  \<open>while (d--) { t[d] = f(d); }\<close>, where computing \<open>f(d)\<close> may raise.
\<close>

partial_function (option) fill_down ::
  "(int \<Rightarrow> error + 'a) \<Rightarrow> int \<Rightarrow> 'a option list \<Rightarrow> (error + 'a option list) option" where
  "fill_down f d t =
     (if d \<noteq> 0
      then (case f (d - 1) of
              Inl e \<Rightarrow> Some (Inl e)
            | Inr v \<Rightarrow> fill_down f (d - 1) (js_assign t (d - 1) (Some v)))
      else Some (Inr t))"

declare fill_down.simps [code]

text \<open>\<open>p[d]\<close> for an array of points, and the \<open>TypeError\<close> of reading a coordinate of \<open>undefined\<close>.\<close>

definition point_at :: "point list \<Rightarrow> int \<Rightarrow> error + point" where
  "point_at p d = (if 0 \<le> d \<and> nat d < length p then Inr (p ! nat d) else Inl TypeError)"

text \<open>
  \<open>calculateIconMovePoints\<close> declares \<open>dY\<close> and loops on \<open>dH\<close>, which is declared nowhere: in
  strict mode the first test of the loop raises.
\<close>

definition calculateIconMovePoints :: "int \<Rightarrow> int \<Rightarrow> int \<Rightarrow> (error + point option list) option" where
  "calculateIconMovePoints x y bounceHeight = Some (Inl ReferenceError)"

definition calculateShadowMovePoints :: "int \<Rightarrow> int \<Rightarrow> int \<Rightarrow> real \<Rightarrow> (error + point list) option" where
  "calculateShadowMovePoints x y bounceHeight angle =
     map_option Inr (calculateLine x y angle bounceHeight)"

definition calculateIconMoveTransforms :: "int \<Rightarrow> int \<Rightarrow> int \<Rightarrow> (error + transform option list) option" where
  "calculateIconMoveTransforms x y bounceHeight =
     fill_down
       (\<lambda>dY. Inr \<lparr>scaleX = Some 1, scaleY = Some 1, translateX = x, translateY = y - dY\<rparr>)
       (bounceHeight + 1) []"

definition calculateShadowMoveTransforms ::
  "int \<Rightarrow> int \<Rightarrow> int \<Rightarrow> real \<Rightarrow> (error + transform option list) option" where
  "calculateShadowMoveTransforms x y bounceHeight angle =
     (case calculateLine x y angle (bounceHeight + 1) of
        None \<Rightarrow> None
      | Some p \<Rightarrow>
          fill_down
            (\<lambda>dY. case point_at p dY of
                     Inl e \<Rightarrow> Inl e
                   | Inr pt \<Rightarrow> Inr \<lparr>scaleX = Some 1, scaleY = Some 1,
                                    translateX = fst pt, translateY = snd pt\<rparr>)
            (bounceHeight + 1) [])"

definition calculateIconResizeTransforms ::
  "int \<Rightarrow> int \<Rightarrow> int \<Rightarrow> int \<Rightarrow> (error + transform option list) option" where
  "calculateIconResizeTransforms x y height contractHeight =
     fill_down
       (\<lambda>dH. Inr \<lparr>scaleX = Some 1, scaleY = js_div (height - dH) height,
                  translateX = x, translateY = y + dH\<rparr>)
       (contractHeight + 1) []"

definition calculateShadowResizeTransforms ::
  "int \<Rightarrow> int \<Rightarrow> int \<Rightarrow> int \<Rightarrow> int \<Rightarrow> real \<Rightarrow> (error + transform option list) option" where
  "calculateShadowResizeTransforms x y width height contractHeight angle =
     (case calculateLine width height (angle + pi) contractHeight of
        None \<Rightarrow> None
      | Some p \<Rightarrow>
          fill_down
            (\<lambda>dH. case point_at p dH of
                     Inl e \<Rightarrow> Inl e
                   | Inr pt \<Rightarrow> Inr \<lparr>scaleX = js_div width (fst pt), scaleY = js_div (snd pt) height,
                                    translateX = x, translateY = y + height - snd pt\<rparr>)
            (contractHeight + 1) [])"

section \<open>Markers\<close>

text \<open>\<open>_bouncingOptions\<close>: the animation properties, with the names the source gives them.\<close>

record options =
  bounceHeight :: int
  contractHeight :: int
  bounceSpeed :: int
  contractSpeed :: int
  shadowAngle :: real
  elastic :: bool
  exclusif :: bool

text \<open>\<open>L.Marker.prototype._bouncingOptions\<close> as the script defines it.\<close>

definition default_options :: options where
  "default_options =
     \<lparr>bounceHeight = 15, contractHeight = 12, bounceSpeed = 52, contractSpeed = 52,
      shadowAngle = - pi / 4, elastic = True, exclusif = False\<rparr>"

text \<open>
  The object passed to \<open>setBouncingOptions\<close>: each property is present with a value or absent.
\<close>

record options_arg =
  arg_bounceHeight :: "int option"
  arg_contractHeight :: "int option"
  arg_bounceSpeed :: "int option"
  arg_contractSpeed :: "int option"
  arg_shadowAngle :: "real option"
  arg_elastic :: "bool option"
  arg_exclusif :: "bool option"

text \<open>
  A marker: its own \<open>_bouncingOptions\<close> if it has them (\<open>None\<close>: it still reads the
  prototype's), the fields of its \<open>_bouncingMotion\<close>, and the sizes it reads from its icon
  options. The marker is taken to be on the map, so its position and the heights of its icon
  and shadow are numbers.
\<close>

record marker =
  own_options :: "options option"
  isBouncing :: bool
  moveSteps :: "jsnum list"
  moveDelays :: "jsnum list"
  resizeSteps :: "jsnum list"
  resizeDelays :: "jsnum list"
  motion_x :: int
  motion_y :: int
  iconSize_height :: int
  shadowSize_height :: int
  iconMoveTransforms :: "transform option list"
  iconResizeTransforms :: "transform option list"
  shadowMoveTransforms :: "transform option list"
  shadowResizeTransforms :: "transform option list"
  iconMovePoints :: "point option list"
  shadowMovePoints :: "point list"

text \<open>
  What a callback registered with \<open>setTimeout\<close> will do. The functions are the inner
  functions of one call of \<open>bounce\<close>, so each carries the number of that call; the step
  functions also carry their argument.
\<close>

datatype callback =
    MakeMoveStep nat jsnum
  | MakeMoveStepNo3D nat jsnum
  | MakeResizeStep nat jsnum
  | MoveEnd nat
  | Move nat
  | ResizeEnd nat

record timer =
  due :: int
  callback :: callback

text \<open>
  The variables one call of \<open>bounce\<close> captures for its inner functions. Only \<open>times\<close> is
  assigned afterwards; \<open>None\<close> is \<open>null\<close>, bouncing without end.
\<close>

record activation =
  act_marker :: nat
  act_times :: "int option"
  act_elastic :: bool
  act_bounceSpeed :: int
  act_moveSteps :: "jsnum list"
  act_moveDelays :: "jsnum list"
  act_resizeSteps :: "jsnum list"
  act_resizeDelays :: "jsnum list"

text \<open>
  The state of the page: the module's cache, the prototype's options, the marker objects by
  reference, \<open>L.Marker._bouncingMarkers\<close> as a list of references, \<open>L.Browser.any3d\<close>, the calls
  of \<open>bounce\<close> made so far, the pending timers and the time in milliseconds. The style of the
  icon and of the shadow is outside the model.
\<close>

record state =
  cache :: cache
  prototype_options :: options
  markers :: "nat \<Rightarrow> marker"
  bouncingMarkers :: "nat list"
  any3d :: bool
  activations :: "activation list"
  timers :: "timer list"
  clock :: int

text \<open>\<open>marker._bouncingOptions\<close>, through the prototype chain.\<close>

definition bouncingOptions :: "state \<Rightarrow> nat \<Rightarrow> options" where
  "bouncingOptions st m =
     (case own_options (markers st m) of None \<Rightarrow> prototype_options st | Some opts \<Rightarrow> opts)"

text \<open>\<open>marker._bouncingMotion.isBouncing = b\<close>\<close>

definition set_isBouncing :: "nat \<Rightarrow> bool \<Rightarrow> state \<Rightarrow> state" where
  "set_isBouncing m b st = st\<lparr>markers := (markers st)(m := (markers st m)\<lparr>isBouncing := b\<rparr>)\<rparr>"

section \<open>Bouncing registry\<close>

definition getBouncingMarkers :: "state \<Rightarrow> nat list" where
  "getBouncingMarkers st = bouncingMarkers st"

text \<open>
  \<open>while (marker = L.Marker._bouncingMarkers.shift()) { marker._bouncingMotion.isBouncing =
  false; }\<close>: a marker is an object, hence truthy, and the loop ends on the empty array.
\<close>

function stopBouncingMarkers :: "state \<Rightarrow> state" where
  "stopBouncingMarkers st =
     (case bouncingMarkers st of
        [] \<Rightarrow> st
      | m # rest \<Rightarrow> stopBouncingMarkers (set_isBouncing m False (st\<lparr>bouncingMarkers := rest\<rparr>)))"
  by pat_completeness auto
termination
  by (relation "measure (\<lambda>st. length (bouncingMarkers st))") (auto simp: set_isBouncing_def)

declare stopBouncingMarkers.simps [simp del]

text \<open>
  The loop of \<open>_stopEclusifMarkerBouncing\<close>, \<open>i\<close> running down from the length of the array:
  \<open>while (i--) { if (\<dots>[i]._bouncingOptions.exclusif) { \<dots>[i]._bouncingMotion.isBouncing =
  false; \<dots>.splice(i, 1); } }\<close>
\<close>

fun stopEclusif_loop :: "nat \<Rightarrow> state \<Rightarrow> state" where
  "stopEclusif_loop 0 st = st"
| "stopEclusif_loop (Suc i) st =
     stopEclusif_loop i
       (if exclusif (bouncingOptions st (bouncingMarkers st ! i))
        then (set_isBouncing (bouncingMarkers st ! i) False st)
               \<lparr>bouncingMarkers := take i (bouncingMarkers st) @ drop (Suc i) (bouncingMarkers st)\<rparr>
        else st)"

definition stopEclusifMarkerBouncing :: "state \<Rightarrow> state" where
  "stopEclusifMarkerBouncing st = stopEclusif_loop (length (bouncingMarkers st)) st"

definition addBouncingMarker :: "nat \<Rightarrow> bool \<Rightarrow> state \<Rightarrow> state" where
  "addBouncingMarker m exclusif_flag st =
     (let st1 = (if exclusif_flag \<or> exclusif (bouncingOptions st m)
                 then stopBouncingMarkers st
                 else stopEclusifMarkerBouncing st)
      in st1\<lparr>bouncingMarkers := bouncingMarkers st1 @ [m]\<rparr>)"

text \<open>
  The loop of \<open>_removeBouncingMarker\<close>: \<open>while (i--) { if (\<dots>[i] == marker) { \<dots>.splice(i, 1);
  break; } }\<close>
\<close>

fun remove_loop :: "nat \<Rightarrow> nat \<Rightarrow> nat list \<Rightarrow> nat list" where
  "remove_loop m 0 reg = reg"
| "remove_loop m (Suc i) reg =
     (if reg ! i = m then take i reg @ drop (Suc i) reg else remove_loop m i reg)"

definition removeBouncingMarker :: "nat \<Rightarrow> state \<Rightarrow> state" where
  "removeBouncingMarker m st =
     st\<lparr>bouncingMarkers := remove_loop m (length (bouncingMarkers st)) (bouncingMarkers st)\<rparr>"

section \<open>Bounce scheduler\<close>

text \<open>
  \<open>setTimeout(f, delay)\<close>: the callback becomes due \<open>delay\<close> milliseconds from now; a delay that
  is not a number, or a negative one, counts as zero.
\<close>

definition setTimeout :: "callback \<Rightarrow> jsnum \<Rightarrow> state \<Rightarrow> state" where
  "setTimeout f delay st =
     st\<lparr>timers := timers st @
           [\<lparr>due = clock st + (case delay of None \<Rightarrow> 0 | Some d \<Rightarrow> max d 0), callback = f\<rparr>]\<rparr>"

text \<open>
  \<open>while (i--) { setTimeout(step, delays[i], steps[i]); }\<close>, \<open>i\<close> starting at the number of
  steps.
\<close>

fun schedule_steps :: "(jsnum \<Rightarrow> callback) \<Rightarrow> jsnum list \<Rightarrow> jsnum list \<Rightarrow> nat \<Rightarrow> state \<Rightarrow> state" where
  "schedule_steps step delays steps 0 st = st"
| "schedule_steps step delays steps (Suc i) st =
     schedule_steps step delays steps i
       (setTimeout (step (js_index steps (int i))) (js_index delays (int i)) st)"

text \<open>
  The inner function \<open>move\<close> of the call number \<open>a\<close>: count the repetition down and clear the
  flag on the last one, launch a timeout for every step, and one for the end of the movement.
\<close>

definition move :: "nat \<Rightarrow> state \<Rightarrow> state" where
  "move a st =
     (let act = activations st ! a;
          st1 = (case act_times act of
                   None \<Rightarrow> st
                 | Some t \<Rightarrow>
                     (let st0 = st\<lparr>activations := (activations st)[a := act\<lparr>act_times := Some (t - 1)\<rparr>]\<rparr>
                      in if t - 1 = 0 then set_isBouncing (act_marker act) False st0 else st0));
          nbMoveSteps = length (act_moveSteps act);
          st2 = schedule_steps (if any3d st then MakeMoveStep a else MakeMoveStepNo3D a)
                  (act_moveDelays act) (act_moveSteps act) nbMoveSteps st1
      in setTimeout (MoveEnd a) (js_index (act_moveDelays act) (int nbMoveSteps - 1)) st2)"

text \<open>The inner function \<open>resize\<close>.\<close>

definition resize :: "nat \<Rightarrow> state \<Rightarrow> state" where
  "resize a st =
     (let act = activations st ! a;
          nbResizeSteps = length (act_resizeSteps act);
          st1 = schedule_steps (MakeResizeStep a)
                  (act_resizeDelays act) (act_resizeSteps act) nbResizeSteps st
      in setTimeout (ResizeEnd a) (js_index (act_resizeDelays act) (int nbResizeSteps - 1)) st1)"

text \<open>
  \<open>marker.bounce()\<close> and \<open>marker.bounce(times)\<close>: capture the variables, set the flag, register
  the marker, start the animation.
\<close>

definition bounce :: "nat \<Rightarrow> int option \<Rightarrow> state \<Rightarrow> state" where
  "bounce m times_arg st =
     (let opts = bouncingOptions st m;
          motion = markers st m;
          act = \<lparr>act_marker = m, act_times = times_arg, act_elastic = elastic opts,
                 act_bounceSpeed = bounceSpeed opts,
                 act_moveSteps = moveSteps motion, act_moveDelays = moveDelays motion,
                 act_resizeSteps = resizeSteps motion, act_resizeDelays = resizeDelays motion\<rparr>;
          a = length (activations st);
          st1 = st\<lparr>activations := activations st @ [act]\<rparr>;
          st2 = set_isBouncing m True st1;
          st3 = addBouncingMarker m (exclusif opts) st2
      in move a st3)"

definition stopBouncing :: "nat \<Rightarrow> state \<Rightarrow> state" where
  "stopBouncing m st = removeBouncingMarker m (set_isBouncing m False st)"

definition toogleBouncing :: "nat \<Rightarrow> state \<Rightarrow> state" where
  "toogleBouncing m st =
     (if isBouncing (markers st m) then stopBouncing m st else bounce m None st)"

text \<open>
  Running a callback. The step functions only write the style of the icon and of the shadow.
  The two anonymous functions decide how the animation goes on.
\<close>

fun run_callback :: "callback \<Rightarrow> state \<Rightarrow> state" where
  "run_callback (MakeMoveStep a step) st = st"
| "run_callback (MakeMoveStepNo3D a step) st = st"
| "run_callback (MakeResizeStep a step) st = st"
| "run_callback (MoveEnd a) st =
     (let act = activations st ! a in
      if act_elastic act \<and> any3d st then resize a st
      else if isBouncing (markers st (act_marker act))
           then setTimeout (Move a) (Some (act_bounceSpeed act)) st
           else st)"
| "run_callback (Move a) st = move a st"
| "run_callback (ResizeEnd a) st =
     (if isBouncing (markers st (act_marker (activations st ! a))) then move a st else st)"

text \<open>The timer at position \<open>k\<close> fires: it leaves the list, the time moves on, its callback runs.\<close>

definition fire :: "nat \<Rightarrow> state \<Rightarrow> state" where
  "fire k st =
     run_callback (callback (timers st ! k))
       (st\<lparr>timers := take k (timers st) @ drop (Suc k) (timers st),
           clock := max (clock st) (due (timers st ! k))\<rparr>)"

text \<open>
  The timer the browser fires next: the earliest due, and of several due at the same time
  the one registered first.
\<close>

fun earliest :: "timer list \<Rightarrow> nat" where
  "earliest [] = 0"
| "earliest (t # ts) =
     (if ts = [] \<or> due t \<le> due (ts ! earliest ts) then 0 else Suc (earliest ts))"

text \<open>The event loop, for at most \<open>n\<close> turns; it idles once no timer is pending.\<close>

fun event_loop :: "nat \<Rightarrow> state \<Rightarrow> state" where
  "event_loop 0 st = st"
| "event_loop (Suc n) st =
     (if timers st = [] then st else event_loop n (fire (earliest (timers st)) st))"

section \<open>Configuration of a marker\<close>

text \<open>
  \<open>_calculateTimeline\<close>: four calls, each storing its result in \<open>_bouncingMotion\<close>. \<open>None\<close>:
  one of the calls does not return.
\<close>

definition calculateTimeline :: "nat \<Rightarrow> state \<Rightarrow> state option" where
  "calculateTimeline m st =
     (let opts = bouncingOptions st m in
      case calculateSteps (cache st) (bounceHeight opts) ''moveSteps_'' of
        None \<Rightarrow> None
      | Some (ms, c1) \<Rightarrow>
     (case calculateDelays c1 (bounceHeight opts) (bounceSpeed opts) ''moveDelays_'' of
        None \<Rightarrow> None
      | Some (md, c2) \<Rightarrow>
     (case calculateSteps c2 (contractHeight opts) ''resizeSteps_'' of
        None \<Rightarrow> None
      | Some (rs, c3) \<Rightarrow>
     (case calculateDelays c3 (contractHeight opts) (contractSpeed opts) ''resizeDelays_'' of
        None \<Rightarrow> None
      | Some (rd, c4) \<Rightarrow>
          Some (st\<lparr>cache := c4,
                    markers := (markers st)(m := (markers st m)
                      \<lparr>moveSteps := ms, moveDelays := md,
                       resizeSteps := rs, resizeDelays := rd\<rparr>)\<rparr>)))))"

text \<open>
  \<open>_calculateTransforms\<close>. With 3D transforms the four arrays of transformations are
  computed, the one of the shadow's contraction by \<open>calculateIconResizeTransforms\<close> on the
  height of the shadow; without, the two arrays of points. \<open>None\<close>: a call does not return;
  \<open>Inl\<close>: a call raises.
\<close>

definition calculateTransforms :: "nat \<Rightarrow> state \<Rightarrow> (error + state) option" where
  "calculateTransforms m st =
     (let opts = bouncingOptions st m; mk = markers st m in
      if any3d st then
        (case calculateIconMoveTransforms (motion_x mk) (motion_y mk) (bounceHeight opts) of
           None \<Rightarrow> None
         | Some (Inl e) \<Rightarrow> Some (Inl e)
         | Some (Inr imt) \<Rightarrow>
        (case calculateIconResizeTransforms (motion_x mk) (motion_y mk) (iconSize_height mk)
                (contractHeight opts) of
           None \<Rightarrow> None
         | Some (Inl e) \<Rightarrow> Some (Inl e)
         | Some (Inr irt) \<Rightarrow>
        (case calculateShadowMoveTransforms (motion_x mk) (motion_y mk) (bounceHeight opts)
                (shadowAngle opts) of
           None \<Rightarrow> None
         | Some (Inl e) \<Rightarrow> Some (Inl e)
         | Some (Inr smt) \<Rightarrow>
        (case calculateIconResizeTransforms (motion_x mk) (motion_y mk) (shadowSize_height mk)
                (contractHeight opts) of
           None \<Rightarrow> None
         | Some (Inl e) \<Rightarrow> Some (Inl e)
         | Some (Inr srt) \<Rightarrow>
             Some (Inr (st\<lparr>markers := (markers st)(m := mk
                     \<lparr>iconMoveTransforms := imt, iconResizeTransforms := irt,
                      shadowMoveTransforms := smt, shadowResizeTransforms := srt\<rparr>)\<rparr>))))))
      else
        (case calculateIconMovePoints (motion_x mk) (motion_y mk) (bounceHeight opts) of
           None \<Rightarrow> None
         | Some (Inl e) \<Rightarrow> Some (Inl e)
         | Some (Inr imp) \<Rightarrow>
        (case calculateShadowMovePoints (motion_x mk) (motion_y mk) (bounceHeight opts)
                (shadowAngle opts) of
           None \<Rightarrow> None
         | Some (Inl e) \<Rightarrow> Some (Inl e)
         | Some (Inr smp) \<Rightarrow>
             Some (Inr (st\<lparr>markers := (markers st)(m := mk
                     \<lparr>iconMovePoints := imp, shadowMovePoints := smp\<rparr>)\<rparr>)))))"

text \<open>
  The loop of \<open>setBouncingOptions\<close> over the properties of the prototype's options: the value
  passed if the argument has the property, the prototype's value otherwise.
\<close>

definition merge_options :: "options_arg \<Rightarrow> options \<Rightarrow> options" where
  "merge_options arg proto =
     \<lparr>bounceHeight = (case arg_bounceHeight arg of Some v \<Rightarrow> v | None \<Rightarrow> bounceHeight proto),
      contractHeight = (case arg_contractHeight arg of Some v \<Rightarrow> v | None \<Rightarrow> contractHeight proto),
      bounceSpeed = (case arg_bounceSpeed arg of Some v \<Rightarrow> v | None \<Rightarrow> bounceSpeed proto),
      contractSpeed = (case arg_contractSpeed arg of Some v \<Rightarrow> v | None \<Rightarrow> contractSpeed proto),
      shadowAngle = (case arg_shadowAngle arg of Some v \<Rightarrow> v | None \<Rightarrow> shadowAngle proto),
      elastic = (case arg_elastic arg of Some v \<Rightarrow> v | None \<Rightarrow> elastic proto),
      exclusif = (case arg_exclusif arg of Some v \<Rightarrow> v | None \<Rightarrow> exclusif proto)\<rparr>"

text \<open>
  \<open>marker.setBouncingOptions(options)\<close>: the marker gets options of its own, then the timeline
  and the transformations are recalculated. Nothing is checked on the way.
\<close>

definition setBouncingOptions :: "nat \<Rightarrow> options_arg \<Rightarrow> state \<Rightarrow> (error + state) option" where
  "setBouncingOptions m arg st =
     (let st1 = st\<lparr>markers := (markers st)(m := (markers st m)
                   \<lparr>own_options := Some (merge_options arg (prototype_options st))\<rparr>)\<rparr>
      in case calculateTimeline m st1 of
           None \<Rightarrow> None
         | Some st2 \<Rightarrow> calculateTransforms m st2)"

text \<open>
  A marker object before the script's part of \<open>initialize\<close> has run: no options of its
  own, the flag down, no timeline and no transformations yet. Its position is the origin of
  the map pane and its icon is Leaflet's default icon, whose image and shadow are 41 pixels
  high.
\<close>

definition new_marker :: marker where
  "new_marker =
     \<lparr>own_options = None, isBouncing = False,
      moveSteps = [], moveDelays = [], resizeSteps = [], resizeDelays = [],
      motion_x = 0, motion_y = 0, iconSize_height = 41, shadowSize_height = 41,
      iconMoveTransforms = [], iconResizeTransforms = [],
      shadowMoveTransforms = [], shadowResizeTransforms = [],
      iconMovePoints = [], shadowMovePoints = []\<rparr>"

text \<open>
  The page once the script is loaded, on a browser with or without 3D transforms: nothing
  cached, the prototype's options as written in the script, nothing registered, no call of
  \<open>bounce\<close> made, no timer pending, and every reference free for a marker to be constructed.
\<close>

definition loaded :: "bool \<Rightarrow> state" where
  "loaded is3d =
     \<lparr>cache = Map.empty, prototype_options = default_options, markers = (\<lambda>m. new_marker),
      bouncingMarkers = [], any3d = is3d, activations = [], timers = [], clock = 0\<rparr>"

text \<open>
  The part of the constructor that the script adds to \<open>initialize\<close>: a fresh
  \<open>_bouncingMotion\<close> with the flag down, then the timeline from the options in force.
\<close>

definition initialize :: "nat \<Rightarrow> state \<Rightarrow> state option" where
  "initialize m st = calculateTimeline m (st\<lparr>markers := (markers st)(m := new_marker)\<rparr>)"

text \<open>\<open>_setPos(pos)\<close>: Leaflet places the marker, the script notes where and recompiles.\<close>

definition setPos :: "nat \<Rightarrow> point \<Rightarrow> state \<Rightarrow> (error + state) option" where
  "setPos m pos st =
     calculateTransforms m
       (st\<lparr>markers := (markers st)(m := (markers st m)\<lparr>motion_x := fst pos, motion_y := snd pos\<rparr>)\<rparr>)"

section \<open>Auxiliary notions for the proofs about the scheduler\<close>

text \<open>The call of \<open>bounce\<close> a callback belongs to, and whether it ends a phase or is a step.\<close>

fun callback_act :: "callback \<Rightarrow> nat" where
  "callback_act (MakeMoveStep a s) = a"
| "callback_act (MakeMoveStepNo3D a s) = a"
| "callback_act (MakeResizeStep a s) = a"
| "callback_act (MoveEnd a) = a"
| "callback_act (Move a) = a"
| "callback_act (ResizeEnd a) = a"

fun phase_callback :: "callback \<Rightarrow> bool" where
  "phase_callback (MoveEnd a) = True"
| "phase_callback (Move a) = True"
| "phase_callback (ResizeEnd a) = True"
| "phase_callback f = False"

definition phase_count :: "state \<Rightarrow> nat" where
  "phase_count st = length (filter (\<lambda>tm. phase_callback (callback tm)) (timers st))"

text \<open>
  The timers a pending callback can still cause, itself included: the end of a movement may
  launch a whole contraction, everything else is counted once.
\<close>

fun weight :: "nat \<Rightarrow> callback \<Rightarrow> nat" where
  "weight nR (MoveEnd a) = nR + 3"
| "weight nR f = 1"

definition remaining :: "activation \<Rightarrow> nat" where
  "remaining act = (case act_times act of None \<Rightarrow> 0 | Some t \<Rightarrow> nat t)"

text \<open>
  A bound on the turns of the event loop an animation with a finite count still needs: the
  pending timers by weight, and a full cycle for every repetition left.
\<close>

definition potential :: "nat \<Rightarrow> activation \<Rightarrow> state \<Rightarrow> nat" where
  "potential a act0 st =
     sum_list (map (\<lambda>tm. weight (length (act_resizeSteps act0)) (callback tm)) (timers st))
     + (length (act_moveSteps act0) + length (act_resizeSteps act0) + 5)
         * remaining (activations st ! a)"

text \<open>
  What holds while the only animation running is the call number \<open>a\<close> of \<open>bounce\<close>, made
  with a finite count: the count left is not negative, the flag is down once it is zero, a
  pending restart means a repetition is left, every timer belongs to the call, and at most
  one of them ends a phase, none only when the flag is down.
\<close>

definition run_inv :: "nat \<Rightarrow> activation \<Rightarrow> state \<Rightarrow> bool" where
  "run_inv a act0 st \<longleftrightarrow>
     a < length (activations st) \<and>
     (\<exists>t. 0 \<le> t \<and> activations st ! a = act0\<lparr>act_times := Some t\<rparr> \<and>
          (t = 0 \<longrightarrow> \<not> isBouncing (markers st (act_marker act0))) \<and>
          (\<forall>tm \<in> set (timers st). callback tm = Move a \<longrightarrow> 1 \<le> t)) \<and>
     (\<forall>tm \<in> set (timers st). callback_act (callback tm) = a) \<and>
     phase_count st \<le> 1 \<and>
     (phase_count st = 0 \<longrightarrow> \<not> isBouncing (markers st (act_marker act0)))"

section \<open>Auxiliary notions for the proofs about the compiler\<close>

text \<open>
  The states of a contraction that \<open>calculateIconResizeTransforms\<close> builds: one for every
  pixel from 0 to \<open>contractHeight\<close>, each scaling the height only.
\<close>

definition vertical_states :: "int \<Rightarrow> int \<Rightarrow> int \<Rightarrow> int \<Rightarrow> transform option list" where
  "vertical_states x y height ch =
     map (\<lambda>j. Some \<lparr>scaleX = Some 1, scaleY = js_div (height - int j) height,
                      translateX = x, translateY = y + int j\<rparr>)
       [0..<nat (ch + 1)]"

section \<open>Sample pages\<close>

text \<open>
  A page on which marker 1 has options of its own with \<open>exclusif\<close> set, is bouncing and is
  the only marker registered; every other marker still reads the prototype's options.
\<close>

definition sample_page :: state where
  "sample_page =
     (loaded True)
       \<lparr>markers := (\<lambda>m. new_marker)
          (1 := new_marker\<lparr>own_options := Some (default_options\<lparr>exclusif := True\<rparr>),
                          isBouncing := True\<rparr>),
        bouncingMarkers := [1]\<rparr>"

text \<open>The argument \<open>{}\<close> of \<open>setBouncingOptions\<close>: no property is passed.\<close>

definition no_options :: options_arg where
  "no_options =
     \<lparr>arg_bounceHeight = None, arg_contractHeight = None, arg_bounceSpeed = None,
      arg_contractSpeed = None, arg_shadowAngle = None, arg_elastic = None, arg_exclusif = None\<rparr>"

section \<open>Properties of the timeline calculator\<close>

lemma steps_up_eq: "steps_up height i steps = steps @ map Some [i..height]"
proof (induction height i steps rule: steps_up.induct)
  case (1 height i steps)
  show ?case
  proof (cases "i \<le> height")
    case True
    then have "[i..height] = i # [i + 1..height]" by (simp add: upto_rec1)
    with True 1 show ?thesis by (simp add: steps_up.simps [of height i])
  next
    case False
    then show ?thesis by (simp add: steps_up.simps [of height i])
  qed
qed

lemma steps_down_eq:
  "0 \<le> i \<Longrightarrow> steps_down i steps = Some (steps @ map Some (rev [0..i - 1]))"
proof (induction "nat i" arbitrary: i steps)
  case 0
  then have "i = 0" by simp
  then show ?case by (simp add: steps_down.simps [of 0])
next
  case (Suc n)
  then have pos: "0 < i" and n: "n = nat (i - 1)" by auto
  from pos have up: "[0..i - 1] = [0..i - 1 - 1] @ [i - 1]" by (simp add: upto_rec2)
  have "steps_down i steps = steps_down (i - 1) (steps @ [Some (i - 1)])"
    using pos by (subst steps_down.simps) simp
  also have "\<dots> = Some ((steps @ [Some (i - 1)]) @ map Some (rev [0..i - 1 - 1]))"
    using Suc.hyps(1) [OF n] pos by simp
  finally show ?case using up by simp
qed

lemma steps_down_returns:
  assumes "steps_down i steps = Some r"
  shows "0 \<le> i"
proof (rule steps_down.raw_induct [where P = "\<lambda>i steps r. 0 \<le> i", OF _ assms])
  fix f :: "int \<Rightarrow> jsnum list \<Rightarrow> jsnum list option" and i steps r
  assume IH: "\<And>i steps r. f i steps = Some r \<Longrightarrow> 0 \<le> i"
    and eq: "(if i \<noteq> 0 then f (i - 1) (steps @ [Some (i - 1)]) else Some steps) = Some r"
  show "0 \<le> i"
  proof (cases "i = 0")
    case True
    then show ?thesis by simp
  next
    case False
    with eq have "f (i - 1) (steps @ [Some (i - 1)]) = Some r" by simp
    then have "0 \<le> i - 1" by (rule IH)
    then show ?thesis by simp
  qed
qed

lemma steps_down_diverges: "i < 0 \<Longrightarrow> steps_down i steps = None"
  using steps_down_returns [of i steps] by (cases "steps_down i steps") auto

lemma compute_steps_eq:
  "0 \<le> height \<Longrightarrow> compute_steps height = Some (map Some ([1..height] @ rev [0..height - 1]))"
  by (simp add: compute_steps_def steps_up_eq steps_down_eq)

lemma compute_steps_diverges: "height < 0 \<Longrightarrow> compute_steps height = None"
  by (simp add: compute_steps_def steps_down_diverges)

subsection \<open>The delay loops\<close>

lemma deltas_fill_returns:
  assumes "deltas_fill height speed i deltas = Some r"
  shows "1 \<le> i"
proof (rule deltas_fill.raw_induct [where P = "\<lambda>height speed i deltas r. 1 \<le> i", OF _ assms])
  fix f :: "int \<Rightarrow> int \<Rightarrow> int \<Rightarrow> jsnum list \<Rightarrow> jsnum list option"
    and height speed i deltas r
  assume IH: "\<And>height speed i deltas r. f height speed i deltas = Some r \<Longrightarrow> 1 \<le> i"
    and eq: "(if i - 1 \<noteq> 0
      then f height speed (i - 1) (js_assign deltas (i - 1) (js_round_div speed (height - (i - 1))))
      else Some deltas) = Some r"
  show "1 \<le> i"
  proof (cases "i - 1 = 0")
    case True
    then show ?thesis by simp
  next
    case False
    with eq have "f height speed (i - 1)
        (js_assign deltas (i - 1) (js_round_div speed (height - (i - 1)))) = Some r"
      by simp
    then have "1 \<le> i - 1" by (rule IH)
    then show ?thesis by simp
  qed
qed

lemma deltas_fill_diverges: "i \<le> 0 \<Longrightarrow> deltas_fill height speed i deltas = None"
  using deltas_fill_returns [of height speed i deltas]
  by (cases "deltas_fill height speed i deltas") auto

lemma compute_delays_diverges: "height \<le> 0 \<Longrightarrow> compute_delays height speed = None"
  by (simp add: compute_delays_def deltas_fill_diverges)

lemma deltas_fill_eq:
  "1 \<le> i \<Longrightarrow> nat i \<le> length deltas \<Longrightarrow>
   \<exists>r. deltas_fill height speed i deltas = Some r \<and> length r = length deltas \<and>
     (\<forall>j < length deltas. r ! j =
        (if 1 \<le> j \<and> int j < i then js_round_div speed (height - int j) else deltas ! j))"
proof (induction "nat (i - 1)" arbitrary: i deltas)
  case 0
  then have "i = 1" by simp
  then show ?case by (simp add: deltas_fill.simps [of height speed 1])
next
  case (Suc n)
  then have big: "1 < i" and n: "n = nat (i - 1 - 1)" by auto
  let ?d = "js_assign deltas (i - 1) (js_round_div speed (height - (i - 1)))"
  have d: "?d = deltas[nat (i - 1) := js_round_div speed (height - (i - 1))]"
    using big Suc.prems by (auto simp: js_assign_def)
  have unfold: "deltas_fill height speed i deltas = deltas_fill height speed (i - 1) ?d"
    using big by (subst deltas_fill.simps) simp
  have "nat (i - 1) \<le> length ?d" using Suc.prems d by simp
  with Suc.hyps(1) [OF n, of ?d] big obtain r where
    r: "deltas_fill height speed (i - 1) ?d = Some r" "length r = length ?d"
      "\<forall>j < length ?d. r ! j =
        (if 1 \<le> j \<and> int j < i - 1 then js_round_div speed (height - int j) else ?d ! j)"
    by auto
  have "\<forall>j < length deltas. r ! j =
        (if 1 \<le> j \<and> int j < i then js_round_div speed (height - int j) else deltas ! j)"
  proof (intro allI impI)
    fix j assume j: "j < length deltas"
    show "r ! j = (if 1 \<le> j \<and> int j < i then js_round_div speed (height - int j) else deltas ! j)"
    proof (cases "j = nat (i - 1)")
      case True
      then have ji: "int j = i - 1" and j1: "1 \<le> j" using big by auto
      have "r ! j = ?d ! j" using r(3) j d ji by simp
      also have "\<dots> = js_round_div speed (height - int j)" using d j ji True by simp
      finally show ?thesis using ji j1 by simp
    next
      case False
      then have "int j \<noteq> i - 1" using big by auto
      with r(3) j d False show ?thesis by auto
    qed
  qed
  with r(1,2) unfold d show ?case by simp
qed

lemma deltas_mirror_eq:
  "0 \<le> i \<Longrightarrow> nat i \<le> length d \<Longrightarrow>
   deltas_mirror i (d @ e) = Some (d @ e @ rev (take (nat i) d))"
proof (induction "nat i" arbitrary: i e)
  case 0
  then have "i = 0" by simp
  then show ?case by (simp add: deltas_mirror.simps [of 0])
next
  case (Suc n)
  then have pos: "0 < i" and n: "n = nat (i - 1)" by auto
  have lt: "nat (i - 1) < length d" using Suc.prems pos by auto
  have idx: "js_index (d @ e) (i - 1) = d ! nat (i - 1)"
    using lt pos by (simp add: js_index_def nth_append)
  have tk: "take (nat i) d = take (nat (i - 1)) d @ [d ! nat (i - 1)]"
    using lt pos take_Suc_conv_app_nth [of "nat (i - 1)" d] by (simp add: Suc_nat_eq_nat_zadd1)
  have "deltas_mirror i (d @ e) = deltas_mirror (i - 1) (d @ (e @ [d ! nat (i - 1)]))"
    using pos idx by (subst deltas_mirror.simps) simp
  also have "\<dots> = Some (d @ (e @ [d ! nat (i - 1)]) @ rev (take (nat (i - 1)) d))"
    using Suc.hyps(1) [OF n] pos lt by simp
  finally show ?case using tk by simp
qed

lemma js_round_div_round:
  assumes "k \<noteq> 0"
  shows "js_round_div s k = Some (round (real_of_int s / real_of_int k))"
proof -
  have "real_of_int s / real_of_int k + 1 / 2 = real_of_int (2 * s + k) / real_of_int (2 * k)"
    using assms by (simp add: field_simps)
  then have "round (real_of_int s / real_of_int k) = \<lfloor>real_of_int (2 * s + k) / real_of_int (2 * k)\<rfloor>"
    unfolding round_def by simp
  also have "\<dots> = (2 * s + k) div (2 * k)"
    by (rule floor_divide_of_int_eq)
  finally show ?thesis using assms by (simp add: js_round_div_def)
qed

lemma cumulate_Some: "cumulate (Some t) (map Some xs) = map Some (running_sums t xs)"
  by (induction xs arbitrary: t) (simp_all add: js_add_def)

lemma length_running_sums [simp]: "length (running_sums t xs) = length xs"
  by (induction xs arbitrary: t) simp_all

lemma running_sums_nth:
  "k < length xs \<Longrightarrow> running_sums t xs ! k = t + (\<Sum>j\<le>k. xs ! j)"
proof (induction xs arbitrary: t k)
  case Nil
  then show ?case by simp
next
  case (Cons x xs)
  show ?case
  proof (cases k)
    case 0
    then show ?thesis by simp
  next
    case (Suc m)
    with Cons.prems have m: "m < length xs" by simp
    have "(\<Sum>j\<le>Suc m. (x # xs) ! j) = x + (\<Sum>j\<le>m. xs ! j)"
      by (simp add: sum.atMost_Suc_shift del: sum.atMost_Suc)
    with Cons.IH [OF m, of "t + x"] Suc show ?thesis by simp
  qed
qed

lemma running_sums_sorted:
  "\<forall>x \<in> set xs. 0 \<le> x \<Longrightarrow> sorted (running_sums t xs) \<and> (\<forall>y \<in> set (running_sums t xs). t \<le> y)"
proof (induction xs arbitrary: t)
  case Nil
  then show ?case by simp
next
  case (Cons x xs)
  then have x: "0 \<le> x" and rest: "\<forall>x \<in> set xs. 0 \<le> x" by simp_all
  from Cons.IH [OF rest, of "t + x"] x show ?case by fastforce
qed

lemma length_outbound [simp]: "length (outbound h s) = Suc (nat h)"
  by (simp add: outbound_def del: upt_Suc)

lemma outbound_nth:
  "j < Suc (nat h) \<Longrightarrow> outbound h s ! j =
     (if j = 0 then 0 else if int j = h then s
      else (2 * s + (h - int j)) div (2 * (h - int j)))"
  by (simp add: outbound_def del: upt_Suc)

lemma compute_delays_eq:
  assumes "1 \<le> h"
  shows "compute_delays h s =
    Some (map Some (running_sums 0 (outbound h s @ rev (take (nat h) (outbound h s)))))"
proof -
  let ?d0 = "js_assign (js_assign [] h (Some s)) 0 (Some 0)"
  have d0: "?d0 = (replicate (nat h) None @ [Some s])[0 := Some 0]"
    using assms by (simp add: js_assign_def)
  then have len0: "length ?d0 = Suc (nat h)" by simp
  have "nat h \<le> length ?d0" using len0 by simp
  from deltas_fill_eq [OF assms this, of h s] obtain r where
    r: "deltas_fill h s h ?d0 = Some r" "length r = length ?d0"
       "\<forall>j < length ?d0. r ! j =
          (if 1 \<le> j \<and> int j < h then js_round_div s (h - int j) else ?d0 ! j)"
    by blast
  have "r = map Some (outbound h s)"
  proof (rule nth_equalityI)
    show "length r = length (map Some (outbound h s))"
      using r(2) len0 by simp
  next
    fix j assume "j < length r"
    then have j: "j < Suc (nat h)" using r(2) len0 by simp
    then have jl: "j < length ?d0" using len0 by simp
    have ob: "outbound h s ! j = (if j = 0 then 0 else if int j = h then s
               else (2 * s + (h - int j)) div (2 * (h - int j)))"
      using j by (rule outbound_nth)
    consider "j = 0" | "1 \<le> j" "int j < h" | "int j = h" using j assms by force
    then have "r ! j = Some (outbound h s ! j)"
    proof cases
      case 1
      then show ?thesis using r(3) jl d0 ob assms by (simp add: nth_append)
    next
      case 2
      then have "r ! j = js_round_div s (h - int j)" using r(3) jl by simp
      then show ?thesis using 2 ob by (simp add: js_round_div_def)
    next
      case 3
      then have "j = nat h" "j \<noteq> 0" using assms by auto
      then show ?thesis using r(3) jl d0 ob 3 by (simp add: nth_append)
    qed
    then show "r ! j = map Some (outbound h s) ! j" using j by simp
  qed
  moreover have "deltas_mirror h (r @ []) = Some (r @ [] @ rev (take (nat h) r))"
    using assms r(2) len0 by (intro deltas_mirror_eq) auto
  ultimately have "deltas_mirror h r =
      Some (map Some (outbound h s @ rev (take (nat h) (outbound h s))))"
    by (simp add: take_map rev_map)
  with r(1) have "compute_delays h s =
      Some (cumulate (Some 0) (map Some (outbound h s @ rev (take (nat h) (outbound h s)))))"
    by (simp add: compute_delays_def)
  then show ?thesis by (simp only: cumulate_Some)
qed

subsection \<open>Cache keys\<close>

lemma digit_char_in: "d < 10 \<Longrightarrow> digit_char d \<in> set ''0123456789''"
  unfolding digit_char_def by (rule nth_mem) simp

lemma digit_char_inj: "a < 10 \<Longrightarrow> b < 10 \<Longrightarrow> digit_char a = digit_char b \<Longrightarrow> a = b"
proof -
  have "distinct ''0123456789''" by simp
  then show "a < 10 \<Longrightarrow> b < 10 \<Longrightarrow> digit_char a = digit_char b \<Longrightarrow> a = b"
    unfolding digit_char_def by (subst (asm) nth_eq_iff_index_eq) simp_all
qed

lemma digits_not_Nil [simp]: "digits n \<noteq> []" "[] \<noteq> digits n"
  by (subst digits.simps, simp)+

lemma digits_chars: "c \<in> set (digits n) \<Longrightarrow> c \<in> set ''0123456789''"
proof (induction n rule: digits.induct)
  case (1 n)
  show ?case
  proof (cases "n < 10")
    case True
    with "1.prems" have "c = digit_char n" by (subst (asm) digits.simps) simp
    with True show ?thesis by (simp only: digit_char_in)
  next
    case False
    with "1.prems" have "c \<in> set (digits (n div 10)) \<or> c = digit_char (n mod 10)"
      by (subst (asm) digits.simps) auto
    then show ?thesis
    proof
      assume "c \<in> set (digits (n div 10))"
      with "1.IH" False show ?thesis by simp
    next
      assume "c = digit_char (n mod 10)"
      then show ?thesis by (simp only: digit_char_in [of "n mod 10"] mod_less_divisor zero_less_numeral)
    qed
  qed
qed

lemma digits_inj: "digits n = digits m \<Longrightarrow> n = m"
proof (induction n arbitrary: m rule: digits.induct)
  case (1 n)
  show ?case
  proof (cases "n < 10")
    case n: True
    show ?thesis
    proof (cases "m < 10")
      case True
      with n "1.prems" show ?thesis
        by (simp add: digits.simps [of n] digits.simps [of m] digit_char_inj)
    next
      case False
      with n "1.prems" show ?thesis
        by (simp add: digits.simps [of n] digits.simps [of m])
    qed
  next
    case n: False
    show ?thesis
    proof (cases "m < 10")
      case True
      with n "1.prems" show ?thesis
        by (simp add: digits.simps [of n] digits.simps [of m])
    next
      case False
      with n "1.prems" have eq: "digits (n div 10) = digits (m div 10)"
        and dc: "digit_char (n mod 10) = digit_char (m mod 10)"
        by (simp_all add: digits.simps [of n] digits.simps [of m])
      from "1.IH" [OF n eq] have "n div 10 = m div 10" .
      moreover from dc have "n mod 10 = m mod 10" by (intro digit_char_inj) simp_all
      ultimately show ?thesis by (metis div_mult_mod_eq)
    qed
  qed
qed

lemma js_string_chars: "c \<in> set (js_string n) \<Longrightarrow> c \<noteq> CHR ''_''"
  using digits_chars [of c] by (auto simp: js_string_def split: if_splits)

lemma js_string_inj: "js_string n = js_string m \<Longrightarrow> n = m"
proof -
  assume eq: "js_string n = js_string m"
  have nomin: "\<And>k. hd (digits k) \<noteq> CHR ''-''"
  proof
    fix k assume h: "hd (digits k) = CHR ''-''"
    have "hd (digits k) \<in> set (digits k)" by simp
    from digits_chars [OF this] h show False by simp
  qed
  consider "n < 0" "m < 0" | "n < 0" "\<not> m < 0" | "\<not> n < 0" "m < 0" | "\<not> n < 0" "\<not> m < 0"
    by blast
  then show ?thesis
  proof cases
    case 1
    with eq have "digits (nat (- n)) = digits (nat (- m))" by (simp add: js_string_def)
    from digits_inj [OF this] 1 show ?thesis by simp
  next
    case 2
    with eq have "CHR ''-'' # digits (nat (- n)) = digits (nat m)" by (simp add: js_string_def)
    then have "hd (digits (nat m)) = CHR ''-''" by (metis list.sel(1))
    with nomin show ?thesis by blast
  next
    case 3
    with eq have "digits (nat n) = CHR ''-'' # digits (nat (- m))" by (simp add: js_string_def)
    then have "hd (digits (nat n)) = CHR ''-''" by (metis list.sel(1))
    with nomin show ?thesis by blast
  next
    case 4
    with eq have "digits (nat n) = digits (nat m)" by (simp add: js_string_def)
    from digits_inj [OF this] 4 show ?thesis by simp
  qed
qed

lemma split_at_separator:
  "a @ c # b = a' @ c # b' \<Longrightarrow> c \<notin> set a \<Longrightarrow> c \<notin> set a' \<Longrightarrow> a = a' \<and> b = b'"
proof (induction a arbitrary: a')
  case Nil
  then show ?case by (cases a') auto
next
  case (Cons x xs)
  then show ?case by (cases a') auto
qed

lemma delays_key_inj:
  assumes "js_string h @ ''_'' @ js_string s = js_string h' @ ''_'' @ js_string s'"
  shows "h = h' \<and> s = s'"
proof -
  have "js_string h = js_string h' \<and> js_string s = js_string s'"
    using assms js_string_chars [of "CHR ''_''" h] js_string_chars [of "CHR ''_''" h']
    by (intro split_at_separator [where c = "CHR ''_''"]) auto
  then show ?thesis by (simp add: js_string_inj)
qed

subsection \<open>Cache contents\<close>

lemma cache_ok_steps_hit:
  assumes "cache_ok c" "p \<in> steps_prefixes" "c (p @ js_string h) = Some v"
  shows "compute_steps h = Some v"
proof -
  from assms(1,3) consider
    p' h' where "p' \<in> steps_prefixes" "p @ js_string h = p' @ js_string h'" "compute_steps h' = Some v"
  | p' h' s' where "p' \<in> delays_prefixes" "p @ js_string h = p' @ js_string h' @ ''_'' @ js_string s'"
    unfolding cache_ok_def by blast
  then show ?thesis
  proof cases
    case 1
    with assms(2) have "js_string h = js_string h'"
      using js_string_chars [of "CHR ''_''" h] js_string_chars [of "CHR ''_''" h']
      by (auto simp: steps_prefixes_def)
    from js_string_inj [OF this] 1(3) show ?thesis by simp
  next
    case 2
    with assms(2) show ?thesis
      by (auto simp: steps_prefixes_def delays_prefixes_def)
  qed
qed

lemma cache_ok_delays_hit:
  assumes "cache_ok c" "p \<in> delays_prefixes" "c (p @ js_string h @ ''_'' @ js_string s) = Some v"
  shows "compute_delays h s = Some v"
proof -
  from assms(1,3) consider
    p' h' where "p' \<in> steps_prefixes" "p @ js_string h @ ''_'' @ js_string s = p' @ js_string h'"
  | p' h' s' where "p' \<in> delays_prefixes"
      "p @ js_string h @ ''_'' @ js_string s = p' @ js_string h' @ ''_'' @ js_string s'"
      "compute_delays h' s' = Some v"
    unfolding cache_ok_def by blast
  then show ?thesis
  proof cases
    case 1
    with assms(2) show ?thesis
      by (auto simp: steps_prefixes_def delays_prefixes_def)
  next
    case 2
    with assms(2) have "js_string h @ ''_'' @ js_string s = js_string h' @ ''_'' @ js_string s'"
      using js_string_chars [of "CHR ''_''" h] js_string_chars [of "CHR ''_''" h']
      by (auto simp: delays_prefixes_def)
    from delays_key_inj [OF this] 2(3) show ?thesis by simp
  qed
qed

lemma cache_ok_steps_store:
  "cache_ok c \<Longrightarrow> p \<in> steps_prefixes \<Longrightarrow> compute_steps h = Some v \<Longrightarrow>
   cache_ok (c(p @ js_string h \<mapsto> v))"
  unfolding cache_ok_def by (intro allI impI) (simp split: if_splits, blast)

lemma cache_ok_delays_store:
  "cache_ok c \<Longrightarrow> p \<in> delays_prefixes \<Longrightarrow> compute_delays h s = Some v \<Longrightarrow>
   cache_ok (c(p @ js_string h @ ''_'' @ js_string s \<mapsto> v))"
  unfolding cache_ok_def by (intro allI impI) (simp split: if_splits, blast)

lemma timeline_cache_ok: "timeline_cache c \<Longrightarrow> cache_ok c"
proof (induction rule: timeline_cache.induct)
  case fresh
  show ?case by (simp add: cache_ok_def)
next
  case (after_steps c prefix height steps c')
  show ?case
  proof (cases "c (prefix @ js_string height)")
    case None
    with after_steps.hyps(3) have "compute_steps height = Some steps"
      and "c' = c(prefix @ js_string height \<mapsto> steps)"
      by (auto simp: calculateSteps_def Let_def split: option.splits)
    with after_steps.IH after_steps.hyps(2) show ?thesis
      by (simp only: cache_ok_steps_store)
  next
    case (Some v)
    with after_steps.hyps(3) have "c' = c" by (simp add: calculateSteps_def)
    with after_steps.IH show ?thesis by simp
  qed
next
  case (after_delays c prefix height speed delays c')
  show ?case
  proof (cases "c (prefix @ js_string height @ ''_'' @ js_string speed)")
    case None
    with after_delays.hyps(3) have "compute_delays height speed = Some delays"
      and "c' = c(prefix @ js_string height @ ''_'' @ js_string speed \<mapsto> delays)"
      by (auto simp: calculateDelays_def Let_def split: option.splits)
    with after_delays.IH after_delays.hyps(2) show ?thesis
      by (simp only: cache_ok_delays_store)
  next
    case (Some v)
    with after_delays.hyps(3) have "c' = c" by (simp add: calculateDelays_def)
    with after_delays.IH show ?thesis by simp
  qed
qed

lemma calculateSteps_result:
  assumes "steps_key_ok c h prefix"
  shows "calculateSteps c h prefix =
    (case compute_steps h of None \<Rightarrow> None
     | Some v \<Rightarrow> Some (v, if c (prefix @ js_string h) = None then c(prefix @ js_string h \<mapsto> v) else c))"
proof (cases "c (prefix @ js_string h)")
  case None
  then show ?thesis by (simp add: calculateSteps_def split: option.splits)
next
  case (Some v)
  with assms have "timeline_cache c" "prefix \<in> steps_prefixes" by (simp_all add: steps_key_ok_def)
  with Some have "compute_steps h = Some v"
    by (intro cache_ok_steps_hit [of c prefix]) (simp_all add: timeline_cache_ok)
  with Some show ?thesis by (simp add: calculateSteps_def)
qed

lemma calculateDelays_result:
  assumes "delays_key_ok c h s prefix"
  shows "calculateDelays c h s prefix =
    (case compute_delays h s of None \<Rightarrow> None
     | Some v \<Rightarrow> Some (v, if c (prefix @ js_string h @ ''_'' @ js_string s) = None
                          then c(prefix @ js_string h @ ''_'' @ js_string s \<mapsto> v) else c))"
proof (cases "c (prefix @ js_string h @ ''_'' @ js_string s)")
  case None
  then show ?thesis by (simp add: calculateDelays_def split: option.splits)
next
  case (Some v)
  with assms have "timeline_cache c" "prefix \<in> delays_prefixes" by (simp_all add: delays_key_ok_def)
  with Some have "compute_delays h s = Some v"
    by (intro cache_ok_delays_hit [of c prefix]) (simp_all add: timeline_cache_ok)
  with Some show ?thesis by (simp add: calculateDelays_def)
qed

lemma length_mirrored [simp]: "length (mirrored h s) = Suc (2 * nat h)"
  by (simp add: mirrored_def)

lemma mirrored_nth_low: "j \<le> nat h \<Longrightarrow> mirrored h s ! j = outbound h s ! j"
  by (simp add: mirrored_def nth_append)

lemma mirrored_nth_high:
  assumes "1 \<le> i" "i \<le> h"
  shows "mirrored h s ! nat (h + i) = outbound h s ! nat (h - i)"
proof -
  have idx: "nat (h + i) - Suc (nat h) = nat (i - 1)" using assms by auto
  have ge: "\<not> nat (h + i) < length (outbound h s)" using assms by auto
  have "mirrored h s ! nat (h + i) =
      rev (take (nat h) (outbound h s)) ! (nat (h + i) - length (outbound h s))"
    unfolding mirrored_def using ge by (simp only: nth_append if_False)
  also have "\<dots> = rev (take (nat h) (outbound h s)) ! nat (i - 1)"
    using idx by (simp only: length_outbound)
  also have "\<dots> = take (nat h) (outbound h s) ! (nat h - Suc (nat (i - 1)))"
    using assms by (subst rev_nth) auto
  also have "nat h - Suc (nat (i - 1)) = nat (h - i)" using assms by auto
  also have "take (nat h) (outbound h s) ! nat (h - i) = outbound h s ! nat (h - i)"
    using assms by (intro nth_take) auto
  finally show ?thesis .
qed

lemma outbound_nonneg:
  assumes "0 \<le> s" "x \<in> set (outbound h s)"
  shows "0 \<le> x"
proof -
  from assms(2) obtain j where j: "j < Suc (nat h)" "x = outbound h s ! j"
    by (auto simp: in_set_conv_nth)
  show ?thesis
  proof (cases "j = 0 \<or> int j = h")
    case True
    with j assms(1) show ?thesis by (auto simp: outbound_nth)
  next
    case False
    with j have k: "0 < h - int j" by auto
    from False j have "x = (2 * s + (h - int j)) div (2 * (h - int j))"
      by (simp add: outbound_nth)
    with k assms(1) show ?thesis by (simp add: pos_imp_zdiv_nonneg_iff)
  qed
qed

lemma mirrored_nonneg: "0 \<le> s \<Longrightarrow> x \<in> set (mirrored h s) \<Longrightarrow> 0 \<le> x"
  by (auto simp: mirrored_def dest: outbound_nonneg in_set_takeD)

section \<open>Properties of the line\<close>

lemma line_loop_points:
  "i < len \<Longrightarrow>
   \<exists>q. line_loop dx sx dy sy len x y err i p = Some (p @ (x, y) # q) \<and> int (length q) = len - i - 1"
proof (induction "nat (len - i - 1)" arbitrary: x y err i p)
  case 0
  then have "i + 1 = len" by simp
  then show ?case by (subst line_loop.simps) simp
next
  case (Suc n)
  then have ne: "i + 1 \<noteq> len" and lt: "i + 1 < len" and n: "n = nat (len - (i + 1) - 1)"
    by auto
  let ?x = "if err > - of_int dx then x + sx else x"
  let ?y = "if err < of_int dy then y + sy else y"
  let ?err = "(if err > - of_int dx then err - of_int dy else err)
                + (if err < of_int dy then of_int dx else 0)"
  from Suc.hyps(1) [OF n lt, of ?x ?y ?err "p @ [(x, y)]"] obtain q where
    q: "line_loop dx sx dy sy len ?x ?y ?err (i + 1) (p @ [(x, y)]) = Some ((p @ [(x, y)]) @ (?x, ?y) # q)"
       "int (length q) = len - (i + 1) - 1"
    by blast
  have "line_loop dx sx dy sy len x y err i p =
        line_loop dx sx dy sy len ?x ?y ?err (i + 1) (p @ [(x, y)])"
    using ne by (subst line_loop.simps) simp
  with q show ?case by (intro exI [of _ "(?x, ?y) # q"]) simp
qed

lemma calculateLine_to_points:
  assumes "1 \<le> len"
  shows "\<exists>q. calculateLine_to x y xD yD len = Some ((x, y) # q) \<and> int (length q) = len - 1"
proof -
  have "0 < len" using assms by simp
  from line_loop_points [OF this, where p = "[]"] show ?thesis
    by (simp add: calculateLine_to_def Let_def)
qed

section \<open>Properties of the registry\<close>

subsection \<open>Flags and registry\<close>

lemma set_isBouncing_simps [simp]:
  "bouncingMarkers (set_isBouncing m b st) = bouncingMarkers st"
  "timers (set_isBouncing m b st) = timers st"
  "activations (set_isBouncing m b st) = activations st"
  "any3d (set_isBouncing m b st) = any3d st"
  "clock (set_isBouncing m b st) = clock st"
  "cache (set_isBouncing m b st) = cache st"
  "prototype_options (set_isBouncing m b st) = prototype_options st"
  "isBouncing (markers (set_isBouncing m b st) q) = (if q = m then b else isBouncing (markers st q))"
  "own_options (markers (set_isBouncing m b st) q) = own_options (markers st q)"
  "q \<noteq> m \<Longrightarrow> markers (set_isBouncing m b st) q = markers st q"
  by (simp_all add: set_isBouncing_def)

lemma bouncingOptions_set_isBouncing [simp]:
  "bouncingOptions (set_isBouncing m b st) q = bouncingOptions st q"
  by (simp add: bouncingOptions_def split: option.splits)

lemma bouncingOptions_cong:
  "prototype_options st' = prototype_options st \<Longrightarrow>
   own_options (markers st' q) = own_options (markers st q) \<Longrightarrow>
   bouncingOptions st' q = bouncingOptions st q"
  by (simp add: bouncingOptions_def split: option.splits)

lemma bouncingOptions_updates [simp]:
  "bouncingOptions (st\<lparr>bouncingMarkers := r\<rparr>) q = bouncingOptions st q"
  "bouncingOptions (st\<lparr>activations := a\<rparr>) q = bouncingOptions st q"
  "bouncingOptions (st\<lparr>timers := t\<rparr>) q = bouncingOptions st q"
  "bouncingOptions (st\<lparr>clock := c\<rparr>) q = bouncingOptions st q"
  by (simp_all add: bouncingOptions_def split: option.splits)

text \<open>What \<open>stopBouncingMarkers\<close> leaves behind.\<close>

lemma stopBouncingMarkers_fields:
  "bouncingMarkers (stopBouncingMarkers st) = [] \<and>
   timers (stopBouncingMarkers st) = timers st \<and>
   activations (stopBouncingMarkers st) = activations st \<and>
   any3d (stopBouncingMarkers st) = any3d st \<and>
   clock (stopBouncingMarkers st) = clock st \<and>
   cache (stopBouncingMarkers st) = cache st \<and>
   prototype_options (stopBouncingMarkers st) = prototype_options st \<and>
   (\<forall>q. own_options (markers (stopBouncingMarkers st) q) = own_options (markers st q)) \<and>
   (\<forall>q. isBouncing (markers (stopBouncingMarkers st) q) =
          (q \<notin> set (bouncingMarkers st) \<and> isBouncing (markers st q))) \<and>
   (\<forall>q. q \<notin> set (bouncingMarkers st) \<longrightarrow> markers (stopBouncingMarkers st) q = markers st q)"
proof (induction st rule: stopBouncingMarkers.induct)
  case (1 st)
  show ?case
  proof (cases "bouncingMarkers st")
    case Nil
    then show ?thesis by (subst (1 2 3 4 5 6 7 8 9 10) stopBouncingMarkers.simps) simp
  next
    case (Cons m rest)
    let ?st1 = "set_isBouncing m False (st\<lparr>bouncingMarkers := rest\<rparr>)"
    have unfold: "stopBouncingMarkers st = stopBouncingMarkers ?st1"
      using Cons by (subst stopBouncingMarkers.simps) simp
    from "1.IH" [OF Cons] Cons show ?thesis
      unfolding unfold by (auto simp: set_isBouncing_def)
  qed
qed

lemmas stopBouncingMarkers_simps [simp] =
  stopBouncingMarkers_fields [THEN conjunct1]
  stopBouncingMarkers_fields [THEN conjunct2, THEN conjunct1]
  stopBouncingMarkers_fields [THEN conjunct2, THEN conjunct2, THEN conjunct1]
  stopBouncingMarkers_fields [THEN conjunct2, THEN conjunct2, THEN conjunct2, THEN conjunct1]
  stopBouncingMarkers_fields [THEN conjunct2, THEN conjunct2, THEN conjunct2, THEN conjunct2, THEN conjunct1]
  stopBouncingMarkers_fields [THEN conjunct2, THEN conjunct2, THEN conjunct2, THEN conjunct2, THEN conjunct2, THEN conjunct1]
  stopBouncingMarkers_fields [THEN conjunct2, THEN conjunct2, THEN conjunct2, THEN conjunct2, THEN conjunct2, THEN conjunct2, THEN conjunct1]
  stopBouncingMarkers_fields [THEN conjunct2, THEN conjunct2, THEN conjunct2, THEN conjunct2, THEN conjunct2, THEN conjunct2, THEN conjunct2, THEN conjunct1, rule_format]
  stopBouncingMarkers_fields [THEN conjunct2, THEN conjunct2, THEN conjunct2, THEN conjunct2, THEN conjunct2, THEN conjunct2, THEN conjunct2, THEN conjunct2, THEN conjunct1, rule_format]

lemma stopBouncingMarkers_other:
  "q \<notin> set (bouncingMarkers st) \<Longrightarrow> markers (stopBouncingMarkers st) q = markers st q"
  using stopBouncingMarkers_fields [of st] by blast

lemma bouncingOptions_stopBouncingMarkers [simp]:
  "bouncingOptions (stopBouncingMarkers st) q = bouncingOptions st q"
  by (rule bouncingOptions_cong) simp_all

text \<open>What the loop of \<open>_stopEclusifMarkerBouncing\<close> leaves behind.\<close>

lemma stopEclusif_loop_fields:
  "i \<le> length (bouncingMarkers st) \<Longrightarrow>
   bouncingMarkers (stopEclusif_loop i st) =
     filter (\<lambda>q. \<not> exclusif (bouncingOptions st q)) (take i (bouncingMarkers st))
       @ drop i (bouncingMarkers st) \<and>
   timers (stopEclusif_loop i st) = timers st \<and>
   activations (stopEclusif_loop i st) = activations st \<and>
   any3d (stopEclusif_loop i st) = any3d st \<and>
   clock (stopEclusif_loop i st) = clock st \<and>
   cache (stopEclusif_loop i st) = cache st \<and>
   prototype_options (stopEclusif_loop i st) = prototype_options st \<and>
   (\<forall>q. own_options (markers (stopEclusif_loop i st) q) = own_options (markers st q)) \<and>
   (\<forall>q. isBouncing (markers (stopEclusif_loop i st) q) =
          (\<not> (q \<in> set (take i (bouncingMarkers st)) \<and> exclusif (bouncingOptions st q)) \<and>
           isBouncing (markers st q))) \<and>
   (\<forall>q. \<not> (q \<in> set (take i (bouncingMarkers st)) \<and> exclusif (bouncingOptions st q)) \<longrightarrow>
          markers (stopEclusif_loop i st) q = markers st q)"
proof (induction i arbitrary: st)
  case 0
  then show ?case by simp
next
  case (Suc i)
  let ?reg = "bouncingMarkers st"
  let ?m = "?reg ! i"
  have i: "i < length ?reg" using Suc.prems by simp
  have tk: "take (Suc i) ?reg = take i ?reg @ [?m]" using i by (simp add: take_Suc_conv_app_nth)
  have dr: "drop i ?reg = ?m # drop (Suc i) ?reg" using i by (simp add: Cons_nth_drop_Suc)
  show ?case
  proof (cases "exclusif (bouncingOptions st ?m)")
    case True
    let ?st1 = "(set_isBouncing ?m False st)\<lparr>bouncingMarkers := take i ?reg @ drop (Suc i) ?reg\<rparr>"
    have len: "i \<le> length (bouncingMarkers ?st1)" using i by simp
    have opt: "bouncingOptions ?st1 q = bouncingOptions st q" for q by simp
    have reg1: "take i (bouncingMarkers ?st1) = take i ?reg" "drop i (bouncingMarkers ?st1) = drop (Suc i) ?reg"
      using i by simp_all
    have unfold: "stopEclusif_loop (Suc i) st = stopEclusif_loop i ?st1" using True by simp
    have mk: "markers (set_isBouncing ?m False st) q =
        (if q = ?m then (markers st q)\<lparr>isBouncing := False\<rparr> else markers st q)" for q
      by (simp add: set_isBouncing_def)
    from Suc.IH [OF len] show ?thesis
      unfolding unfold opt reg1 tk using True by (auto simp: mk)
  next
    case False
    have len: "i \<le> length (bouncingMarkers st)" using i by simp
    have unfold: "stopEclusif_loop (Suc i) st = stopEclusif_loop i st" using False by simp
    from Suc.IH [OF len] show ?thesis
      unfolding unfold tk using False dr by auto
  qed
qed

lemma stopEclusifMarkerBouncing_fields:
  "bouncingMarkers (stopEclusifMarkerBouncing st) =
     filter (\<lambda>q. \<not> exclusif (bouncingOptions st q)) (bouncingMarkers st) \<and>
   timers (stopEclusifMarkerBouncing st) = timers st \<and>
   activations (stopEclusifMarkerBouncing st) = activations st \<and>
   any3d (stopEclusifMarkerBouncing st) = any3d st \<and>
   clock (stopEclusifMarkerBouncing st) = clock st \<and>
   cache (stopEclusifMarkerBouncing st) = cache st \<and>
   prototype_options (stopEclusifMarkerBouncing st) = prototype_options st \<and>
   (\<forall>q. own_options (markers (stopEclusifMarkerBouncing st) q) = own_options (markers st q)) \<and>
   (\<forall>q. isBouncing (markers (stopEclusifMarkerBouncing st) q) =
          (\<not> (q \<in> set (bouncingMarkers st) \<and> exclusif (bouncingOptions st q)) \<and>
           isBouncing (markers st q))) \<and>
   (\<forall>q. \<not> (q \<in> set (bouncingMarkers st) \<and> exclusif (bouncingOptions st q)) \<longrightarrow>
          markers (stopEclusifMarkerBouncing st) q = markers st q)"
  using stopEclusif_loop_fields [of "length (bouncingMarkers st)" st]
  by (simp add: stopEclusifMarkerBouncing_def)

lemmas stopEclusifMarkerBouncing_simps [simp] =
  stopEclusifMarkerBouncing_fields [THEN conjunct1]
  stopEclusifMarkerBouncing_fields [THEN conjunct2, THEN conjunct1]
  stopEclusifMarkerBouncing_fields [THEN conjunct2, THEN conjunct2, THEN conjunct1]
  stopEclusifMarkerBouncing_fields [THEN conjunct2, THEN conjunct2, THEN conjunct2, THEN conjunct1]
  stopEclusifMarkerBouncing_fields [THEN conjunct2, THEN conjunct2, THEN conjunct2, THEN conjunct2, THEN conjunct1]
  stopEclusifMarkerBouncing_fields [THEN conjunct2, THEN conjunct2, THEN conjunct2, THEN conjunct2, THEN conjunct2, THEN conjunct1]
  stopEclusifMarkerBouncing_fields [THEN conjunct2, THEN conjunct2, THEN conjunct2, THEN conjunct2, THEN conjunct2, THEN conjunct2, THEN conjunct1]
  stopEclusifMarkerBouncing_fields [THEN conjunct2, THEN conjunct2, THEN conjunct2, THEN conjunct2, THEN conjunct2, THEN conjunct2, THEN conjunct2, THEN conjunct1, rule_format]
  stopEclusifMarkerBouncing_fields [THEN conjunct2, THEN conjunct2, THEN conjunct2, THEN conjunct2, THEN conjunct2, THEN conjunct2, THEN conjunct2, THEN conjunct2, THEN conjunct1, rule_format]

lemma stopEclusifMarkerBouncing_other:
  "\<not> (q \<in> set (bouncingMarkers st) \<and> exclusif (bouncingOptions st q)) \<Longrightarrow>
   markers (stopEclusifMarkerBouncing st) q = markers st q"
  using stopEclusifMarkerBouncing_fields [of st] by blast

lemma bouncingOptions_stopEclusifMarkerBouncing [simp]:
  "bouncingOptions (stopEclusifMarkerBouncing st) q = bouncingOptions st q"
  by (rule bouncingOptions_cong) simp_all

lemma addBouncingMarker_simps [simp]:
  "timers (addBouncingMarker m f st) = timers st"
  "activations (addBouncingMarker m f st) = activations st"
  "any3d (addBouncingMarker m f st) = any3d st"
  "clock (addBouncingMarker m f st) = clock st"
  "cache (addBouncingMarker m f st) = cache st"
  "prototype_options (addBouncingMarker m f st) = prototype_options st"
  "own_options (markers (addBouncingMarker m f st) q) = own_options (markers st q)"
  by (simp_all add: addBouncingMarker_def Let_def)

lemma bouncingOptions_addBouncingMarker [simp]:
  "bouncingOptions (addBouncingMarker m f st) q = bouncingOptions st q"
  by (rule bouncingOptions_cong) simp_all

lemma addBouncingMarker_registry_eq:
  "bouncingMarkers (addBouncingMarker m f st) =
     (if f \<or> exclusif (bouncingOptions st m) then []
      else filter (\<lambda>q. \<not> exclusif (bouncingOptions st q)) (bouncingMarkers st)) @ [m]"
  by (simp add: addBouncingMarker_def Let_def)

lemma addBouncingMarker_isBouncing:
  "isBouncing (markers (addBouncingMarker m f st) q) =
     ((if f \<or> exclusif (bouncingOptions st m) then q \<notin> set (bouncingMarkers st)
       else \<not> (q \<in> set (bouncingMarkers st) \<and> exclusif (bouncingOptions st q))) \<and>
      isBouncing (markers st q))"
  by (simp add: addBouncingMarker_def Let_def)

lemma addBouncingMarker_other:
  "\<not> f \<Longrightarrow> \<not> exclusif (bouncingOptions st m) \<Longrightarrow> \<not> exclusif (bouncingOptions st q) \<Longrightarrow>
   markers (addBouncingMarker m f st) q = markers st q"
  by (simp add: addBouncingMarker_def Let_def stopEclusifMarkerBouncing_other)

lemma distinct_remove_nth: "distinct xs \<Longrightarrow> distinct (take i xs @ drop (Suc i) xs)"
proof -
  assume d: "distinct xs"
  have "set (take i xs) \<inter> set (drop (Suc i) xs) = {}"
  proof -
    have "distinct (take i xs @ drop i xs)" using d by simp
    then have "set (take i xs) \<inter> set (drop i xs) = {}" by (simp only: distinct_append)
    moreover have "set (drop (Suc i) xs) \<subseteq> set (drop i xs)" by (rule set_drop_subset_set_drop) simp
    ultimately show ?thesis by blast
  qed
  with d show ?thesis by simp
qed

lemma remove_loop_distinct: "distinct reg \<Longrightarrow> distinct (remove_loop m i reg)"
  by (induction i) (simp_all add: distinct_remove_nth del: distinct_append)

lemma remove_loop_subset: "set (remove_loop m i reg) \<subseteq> set reg"
proof (induction i)
  case 0
  show ?case by simp
next
  case (Suc i)
  have "set (take i reg @ drop (Suc i) reg) \<subseteq> set reg"
    using set_take_subset [of i reg] set_drop_subset [of "Suc i" reg] by auto
  with Suc show ?case by simp
qed

lemma removeBouncingMarker_simps [simp]:
  "timers (removeBouncingMarker m st) = timers st"
  "activations (removeBouncingMarker m st) = activations st"
  "any3d (removeBouncingMarker m st) = any3d st"
  "clock (removeBouncingMarker m st) = clock st"
  "cache (removeBouncingMarker m st) = cache st"
  "prototype_options (removeBouncingMarker m st) = prototype_options st"
  "markers (removeBouncingMarker m st) = markers st"
  by (simp_all add: removeBouncingMarker_def)

subsection \<open>What the scheduler leaves alone\<close>

lemma setTimeout_simps [simp]:
  "timers (setTimeout f d st) =
     timers st @ [\<lparr>due = clock st + (case d of None \<Rightarrow> 0 | Some v \<Rightarrow> max v 0), callback = f\<rparr>]"
  "bouncingMarkers (setTimeout f d st) = bouncingMarkers st"
  "activations (setTimeout f d st) = activations st"
  "any3d (setTimeout f d st) = any3d st"
  "clock (setTimeout f d st) = clock st"
  "cache (setTimeout f d st) = cache st"
  "prototype_options (setTimeout f d st) = prototype_options st"
  "markers (setTimeout f d st) = markers st"
  by (simp_all add: setTimeout_def)

lemma schedule_steps_fields:
  "bouncingMarkers (schedule_steps step ds ss n st) = bouncingMarkers st \<and>
   activations (schedule_steps step ds ss n st) = activations st \<and>
   any3d (schedule_steps step ds ss n st) = any3d st \<and>
   clock (schedule_steps step ds ss n st) = clock st \<and>
   cache (schedule_steps step ds ss n st) = cache st \<and>
   prototype_options (schedule_steps step ds ss n st) = prototype_options st \<and>
   markers (schedule_steps step ds ss n st) = markers st"
  by (induction n arbitrary: st) simp_all

lemmas schedule_steps_simps [simp] =
  schedule_steps_fields [THEN conjunct1]
  schedule_steps_fields [THEN conjunct2, THEN conjunct1]
  schedule_steps_fields [THEN conjunct2, THEN conjunct2, THEN conjunct1]
  schedule_steps_fields [THEN conjunct2, THEN conjunct2, THEN conjunct2, THEN conjunct1]
  schedule_steps_fields [THEN conjunct2, THEN conjunct2, THEN conjunct2, THEN conjunct2, THEN conjunct1]
  schedule_steps_fields [THEN conjunct2, THEN conjunct2, THEN conjunct2, THEN conjunct2, THEN conjunct2, THEN conjunct1]
  schedule_steps_fields [THEN conjunct2, THEN conjunct2, THEN conjunct2, THEN conjunct2, THEN conjunct2, THEN conjunct2]

lemma move_registry [simp]: "bouncingMarkers (move a st) = bouncingMarkers st"
  by (simp add: move_def Let_def split: option.splits)

lemma resize_registry [simp]: "bouncingMarkers (resize a st) = bouncingMarkers st"
  by (simp add: resize_def Let_def)

lemma move_own_options [simp]: "own_options (markers (move a st) q) = own_options (markers st q)"
  by (simp add: move_def Let_def split: option.splits)

lemma move_prototype_options [simp]: "prototype_options (move a st) = prototype_options st"
  by (simp add: move_def Let_def split: option.splits)

lemma resize_markers [simp]: "markers (resize a st) = markers st"
  by (simp add: resize_def Let_def)

lemma resize_prototype_options [simp]: "prototype_options (resize a st) = prototype_options st"
  by (simp add: resize_def Let_def)

lemma run_callback_registry [simp]: "bouncingMarkers (run_callback f st) = bouncingMarkers st"
  by (cases f) (simp_all add: Let_def)

lemma fire_registry [simp]: "bouncingMarkers (fire k st) = bouncingMarkers st"
  by (simp add: fire_def)

lemma event_loop_registry [simp]: "bouncingMarkers (event_loop n st) = bouncingMarkers st"
  by (induction n arbitrary: st) simp_all

lemma bounce_registry_eq:
  "bouncingMarkers (bounce m t st) =
     (if exclusif (bouncingOptions st m) then []
      else filter (\<lambda>q. \<not> exclusif (bouncingOptions st q)) (bouncingMarkers st)) @ [m]"
  by (simp add: bounce_def Let_def addBouncingMarker_registry_eq)

lemma stopBouncing_registry_eq:
  "bouncingMarkers (stopBouncing m st) =
     remove_loop m (length (bouncingMarkers st)) (bouncingMarkers st)"
  by (simp add: stopBouncing_def removeBouncingMarker_def)

lemma bouncingOptions_bounce [simp]: "bouncingOptions (bounce m t st) q = bouncingOptions st q"
  by (rule bouncingOptions_cong) (simp_all add: bounce_def Let_def)

lemma sample_page_simps:
  "bouncingMarkers sample_page = [1]"
  "exclusif (bouncingOptions sample_page q) = (q = 1)"
  "isBouncing (markers sample_page q) = (q = 1)"
  by (simp_all add: sample_page_def loaded_def new_marker_def default_options_def bouncingOptions_def)

section \<open>Properties of the configuration\<close>

subsection \<open>The timeline of a marker\<close>

lemma steps_key_ok_prefixes:
  "timeline_cache c \<Longrightarrow> steps_key_ok c h ''moveSteps_''"
  "timeline_cache c \<Longrightarrow> steps_key_ok c h ''resizeSteps_''"
  by (simp_all add: steps_key_ok_def steps_prefixes_def)

lemma delays_key_ok_prefixes:
  "timeline_cache c \<Longrightarrow> delays_key_ok c h s ''moveDelays_''"
  "timeline_cache c \<Longrightarrow> delays_key_ok c h s ''resizeDelays_''"
  by (simp_all add: delays_key_ok_def delays_prefixes_def)

lemma calculateSteps_timeline_cache:
  assumes "timeline_cache c" "p \<in> steps_prefixes" "0 \<le> h"
  shows "\<exists>c'. timeline_cache c' \<and>
           calculateSteps c h p = Some (map Some ([1..h] @ rev [0..h - 1]), c')"
proof -
  have "steps_key_ok c h p" using assms by (simp add: steps_key_ok_def)
  then obtain c' where c': "calculateSteps c h p = Some (map Some ([1..h] @ rev [0..h - 1]), c')"
    using assms(3) by (simp add: calculateSteps_result compute_steps_eq)
  with assms(1,2) have "timeline_cache c'" by (rule timeline_cache.after_steps)
  with c' show ?thesis by blast
qed

lemma calculateDelays_timeline_cache:
  assumes "timeline_cache c" "p \<in> delays_prefixes" "1 \<le> h"
  shows "\<exists>c'. timeline_cache c' \<and>
           calculateDelays c h s p = Some (map Some (running_sums 0 (mirrored h s)), c')"
proof -
  have "delays_key_ok c h s p" using assms by (simp add: delays_key_ok_def)
  then obtain c' where c': "calculateDelays c h s p = Some (map Some (running_sums 0 (mirrored h s)), c')"
    using assms(3) by (simp add: calculateDelays_result compute_delays_eq mirrored_def)
  with assms(1,2) have "timeline_cache c'" by (rule timeline_cache.after_delays)
  with c' show ?thesis by blast
qed

lemma calculateTimeline_returns:
  assumes "timeline_cache (cache st)"
    and "1 \<le> bounceHeight (bouncingOptions st m)"
    and "1 \<le> contractHeight (bouncingOptions st m)"
  shows "\<exists>c'. timeline_cache c' \<and>
    calculateTimeline m st =
      Some (st\<lparr>cache := c',
               markers := (markers st)(m := (markers st m)
                 \<lparr>moveSteps := map Some ([1..bounceHeight (bouncingOptions st m)]
                                 @ rev [0..bounceHeight (bouncingOptions st m) - 1]),
                  moveDelays := map Some (running_sums 0
                     (mirrored (bounceHeight (bouncingOptions st m)) (bounceSpeed (bouncingOptions st m)))),
                  resizeSteps := map Some ([1..contractHeight (bouncingOptions st m)]
                                 @ rev [0..contractHeight (bouncingOptions st m) - 1]),
                  resizeDelays := map Some (running_sums 0
                     (mirrored (contractHeight (bouncingOptions st m)) (contractSpeed (bouncingOptions st m))))\<rparr>)\<rparr>)"
proof -
  let ?o = "bouncingOptions st m"
  have b0: "0 \<le> bounceHeight ?o" and c0: "0 \<le> contractHeight ?o" using assms(2,3) by simp_all
  have sp: "''moveSteps_'' \<in> steps_prefixes" "''resizeSteps_'' \<in> steps_prefixes"
    by (simp_all add: steps_prefixes_def)
  have dp: "''moveDelays_'' \<in> delays_prefixes" "''resizeDelays_'' \<in> delays_prefixes"
    by (simp_all add: delays_prefixes_def)
  from calculateSteps_timeline_cache [OF assms(1) sp(1) b0] obtain c1 where
    c1: "timeline_cache c1"
      "calculateSteps (cache st) (bounceHeight ?o) ''moveSteps_'' =
         Some (map Some ([1..bounceHeight ?o] @ rev [0..bounceHeight ?o - 1]), c1)"
    by blast
  from calculateDelays_timeline_cache [OF c1(1) dp(1) assms(2), of "bounceSpeed ?o"] obtain c2 where
    c2: "timeline_cache c2"
      "calculateDelays c1 (bounceHeight ?o) (bounceSpeed ?o) ''moveDelays_'' =
         Some (map Some (running_sums 0 (mirrored (bounceHeight ?o) (bounceSpeed ?o))), c2)"
    by blast
  from calculateSteps_timeline_cache [OF c2(1) sp(2) c0] obtain c3 where
    c3: "timeline_cache c3"
      "calculateSteps c2 (contractHeight ?o) ''resizeSteps_'' =
         Some (map Some ([1..contractHeight ?o] @ rev [0..contractHeight ?o - 1]), c3)"
    by blast
  from calculateDelays_timeline_cache [OF c3(1) dp(2) assms(3), of "contractSpeed ?o"] obtain c4 where
    c4: "timeline_cache c4"
      "calculateDelays c3 (contractHeight ?o) (contractSpeed ?o) ''resizeDelays_'' =
         Some (map Some (running_sums 0 (mirrored (contractHeight ?o) (contractSpeed ?o))), c4)"
    by blast
  show ?thesis
    by (rule exI [of _ c4]) (simp add: calculateTimeline_def Let_def c1 c2 c3 c4)
qed

lemma loaded_simps [simp]:
  "cache (loaded b) = Map.empty"
  "prototype_options (loaded b) = default_options"
  "markers (loaded b) = (\<lambda>m. new_marker)"
  "bouncingMarkers (loaded b) = []"
  "any3d (loaded b) = b"
  "activations (loaded b) = []"
  "timers (loaded b) = []"
  "clock (loaded b) = 0"
  by (simp_all add: loaded_def)

lemma initialize_loaded:
  "\<exists>st. initialize m (loaded b) = Some st \<and> timeline_cache (cache st) \<and>
     bouncingMarkers st = [] \<and> timers st = [] \<and> activations st = [] \<and> any3d st = b \<and>
     prototype_options st = default_options \<and>
     (\<forall>q. own_options (markers st q) = None) \<and> (\<forall>q. \<not> isBouncing (markers st q)) \<and>
     (\<forall>q. bouncingOptions st q = default_options) \<and>
     (\<forall>q. motion_x (markers st q) = 0 \<and> motion_y (markers st q) = 0 \<and>
          iconSize_height (markers st q) = 41 \<and> shadowSize_height (markers st q) = 41)"
proof -
  let ?st = "(loaded b)\<lparr>markers := (markers (loaded b))(m := new_marker)\<rparr>"
  have o: "bouncingOptions ?st m = default_options"
    by (simp add: bouncingOptions_def new_marker_def)
  have "timeline_cache (cache ?st)" by (simp add: timeline_cache.fresh)
  moreover have "1 \<le> bounceHeight (bouncingOptions ?st m)" "1 \<le> contractHeight (bouncingOptions ?st m)"
    unfolding o by (simp_all add: default_options_def)
  ultimately obtain c' where c': "timeline_cache c'" and
    eq: "calculateTimeline m ?st = Some (?st\<lparr>cache := c',
               markers := (markers ?st)(m := (markers ?st m)
                 \<lparr>moveSteps := map Some ([1..bounceHeight (bouncingOptions ?st m)]
                                 @ rev [0..bounceHeight (bouncingOptions ?st m) - 1]),
                  moveDelays := map Some (running_sums 0
                     (mirrored (bounceHeight (bouncingOptions ?st m)) (bounceSpeed (bouncingOptions ?st m)))),
                  resizeSteps := map Some ([1..contractHeight (bouncingOptions ?st m)]
                                 @ rev [0..contractHeight (bouncingOptions ?st m) - 1]),
                  resizeDelays := map Some (running_sums 0
                     (mirrored (contractHeight (bouncingOptions ?st m)) (contractSpeed (bouncingOptions ?st m))))\<rparr>)\<rparr>)"
    using calculateTimeline_returns [of ?st m] by blast
  show ?thesis
    unfolding initialize_def eq
    using c' by (simp add: bouncingOptions_def new_marker_def)
qed

section \<open>Properties of the scheduler\<close>

subsection \<open>Timers launched by a phase\<close>

lemma schedule_steps_timers:
  assumes "\<And>s. callback_act (step s) = a" "\<And>s. \<not> phase_callback (step s)"
  shows "\<exists>new. timers (schedule_steps step ds ss n st) = timers st @ new \<and> length new = n \<and>
           (\<forall>tm \<in> set new. callback_act (callback tm) = a \<and> \<not> phase_callback (callback tm))"
proof (induction n arbitrary: st)
  case 0
  show ?case by simp
next
  case (Suc n)
  let ?tm = "\<lparr>due = clock st + (case js_index ds (int n) of None \<Rightarrow> 0 | Some v \<Rightarrow> max v 0),
              callback = step (js_index ss (int n))\<rparr>"
  let ?st1 = "setTimeout (step (js_index ss (int n))) (js_index ds (int n)) st"
  from Suc [of ?st1] obtain new where
    new: "timers (schedule_steps step ds ss n ?st1) = timers ?st1 @ new" "length new = n"
      "\<forall>tm \<in> set new. callback_act (callback tm) = a \<and> \<not> phase_callback (callback tm)"
    by blast
  have "timers (schedule_steps step ds ss (Suc n) st) = timers st @ (?tm # new)"
    using new(1) by simp
  moreover have "length (?tm # new) = Suc n" using new(2) by simp
  moreover have "\<forall>tm \<in> set (?tm # new). callback_act (callback tm) = a \<and> \<not> phase_callback (callback tm)"
    using new(3) assms by simp
  ultimately show ?case by blast
qed

lemma move_effect:
  assumes "act_times (activations st ! a) = Some t"
  shows "\<exists>new d.
      timers (move a st) = timers st @ new @ [\<lparr>due = d, callback = MoveEnd a\<rparr>] \<and>
      length new = length (act_moveSteps (activations st ! a)) \<and>
      (\<forall>tm \<in> set new. callback_act (callback tm) = a \<and> \<not> phase_callback (callback tm)) \<and>
      activations (move a st) = (activations st)[a := (activations st ! a)\<lparr>act_times := Some (t - 1)\<rparr>] \<and>
      any3d (move a st) = any3d st \<and>
      (\<forall>q. isBouncing (markers (move a st) q) =
           (isBouncing (markers st q) \<and> \<not> (t - 1 = 0 \<and> q = act_marker (activations st ! a))))"
proof -
  let ?act = "activations st ! a"
  let ?st0 = "st\<lparr>activations := (activations st)[a := ?act\<lparr>act_times := Some (t - 1)\<rparr>]\<rparr>"
  let ?st1 = "if t - 1 = 0 then set_isBouncing (act_marker ?act) False ?st0 else ?st0"
  let ?step = "if any3d st then MakeMoveStep a else MakeMoveStepNo3D a"
  let ?st2 = "schedule_steps ?step (act_moveDelays ?act) (act_moveSteps ?act)
                (length (act_moveSteps ?act)) ?st1"
  have mv: "move a st = setTimeout (MoveEnd a)
      (js_index (act_moveDelays ?act) (int (length (act_moveSteps ?act)) - 1)) ?st2"
    using assms by (simp add: move_def Let_def)
  have s1: "\<And>s. callback_act (?step s) = a" and s2: "\<And>s. \<not> phase_callback (?step s)"
    by simp_all
  from schedule_steps_timers [of ?step a, OF s1 s2] obtain new where
    new: "timers ?st2 = timers ?st1 @ new" "length new = length (act_moveSteps ?act)"
      "\<forall>tm \<in> set new. callback_act (callback tm) = a \<and> \<not> phase_callback (callback tm)"
    by blast
  have t1: "timers ?st1 = timers st" by simp
  show ?thesis
    unfolding mv
    apply (rule exI [of _ new])
    apply (rule exI [of _ "clock ?st2 + (case js_index (act_moveDelays ?act)
              (int (length (act_moveSteps ?act)) - 1) of None \<Rightarrow> 0 | Some v \<Rightarrow> max v 0)"])
    using new t1 by (simp add: set_isBouncing_def)
qed

lemma resize_effect:
  "\<exists>new d.
      timers (resize a st) = timers st @ new @ [\<lparr>due = d, callback = ResizeEnd a\<rparr>] \<and>
      length new = length (act_resizeSteps (activations st ! a)) \<and>
      (\<forall>tm \<in> set new. callback_act (callback tm) = a \<and> \<not> phase_callback (callback tm)) \<and>
      activations (resize a st) = activations st \<and>
      any3d (resize a st) = any3d st \<and>
      markers (resize a st) = markers st"
proof -
  let ?act = "activations st ! a"
  let ?st1 = "schedule_steps (MakeResizeStep a) (act_resizeDelays ?act) (act_resizeSteps ?act)
                (length (act_resizeSteps ?act)) st"
  have rs: "resize a st = setTimeout (ResizeEnd a)
      (js_index (act_resizeDelays ?act) (int (length (act_resizeSteps ?act)) - 1)) ?st1"
    by (simp add: resize_def Let_def)
  have s1: "\<And>s. callback_act (MakeResizeStep a s) = a"
    and s2: "\<And>s. \<not> phase_callback (MakeResizeStep a s)"
    by simp_all
  from schedule_steps_timers [of "MakeResizeStep a" a, OF s1 s2] obtain new where
    new: "timers ?st1 = timers st @ new" "length new = length (act_resizeSteps ?act)"
      "\<forall>tm \<in> set new. callback_act (callback tm) = a \<and> \<not> phase_callback (callback tm)"
    by blast
  show ?thesis
    unfolding rs
    apply (rule exI [of _ new])
    apply (rule exI [of _ "clock ?st1 + (case js_index (act_resizeDelays ?act)
              (int (length (act_resizeSteps ?act)) - 1) of None \<Rightarrow> 0 | Some v \<Rightarrow> max v 0)"])
    using new by simp
qed

subsection \<open>One turn of the event loop\<close>

lemma sum_list_remove_nth:
  "k < length ts \<Longrightarrow>
   sum_list (map f ts) = (f (ts ! k) :: nat) + sum_list (map f (take k ts @ drop (Suc k) ts))"
proof -
  assume "k < length ts"
  then have "ts = take k ts @ ts ! k # drop (Suc k) ts" by (rule id_take_nth_drop)
  then have "sum_list (map f ts) = sum_list (map f (take k ts @ ts ! k # drop (Suc k) ts))"
    by simp
  then show ?thesis by simp
qed

lemma filter_remove_nth:
  "k < length ts \<Longrightarrow>
   length (filter p ts) =
     (if p (ts ! k) then 1 else 0) + length (filter p (take k ts @ drop (Suc k) ts))"
proof -
  assume "k < length ts"
  then have "ts = take k ts @ ts ! k # drop (Suc k) ts" by (rule id_take_nth_drop)
  then have "length (filter p ts) = length (filter p (take k ts @ ts ! k # drop (Suc k) ts))"
    by simp
  then show ?thesis by simp
qed

lemma set_remove_nth: "set (take k ts @ drop (Suc k) ts) \<subseteq> set ts"
  using set_take_subset [of k ts] set_drop_subset [of "Suc k" ts] by auto

lemma weight_step: "\<not> phase_callback f \<Longrightarrow> weight nR f = 1"
  by (cases f) simp_all

lemma weight_pos: "0 < weight nR f"
  by (cases f) simp_all

lemma steps_weight:
  "\<forall>tm \<in> set new. callback_act (callback tm) = a \<and> \<not> phase_callback (callback tm) \<Longrightarrow>
   sum_list (map (\<lambda>tm. weight nR (callback tm)) new) = length new"
  by (induction new) (simp_all add: weight_step)

lemma steps_no_phase:
  "\<forall>tm \<in> set new. callback_act (callback tm) = a \<and> \<not> phase_callback (callback tm) \<Longrightarrow>
   filter (\<lambda>tm. phase_callback (callback tm)) new = []"
  by (induction new) simp_all

lemma no_phase_no_Move:
  "filter (\<lambda>tm. phase_callback (callback tm)) ts = [] \<Longrightarrow> tm \<in> set ts \<Longrightarrow> callback tm \<noteq> Move a"
  by (auto simp: filter_empty_conv)

text \<open>The invariant and the bound, read off a description of the state.\<close>

lemma run_inv_intro:
  assumes "a < length (activations st)"
    and "activations st ! a = act0\<lparr>act_times := Some t\<rparr>"
    and "0 \<le> t"
    and "t = 0 \<Longrightarrow> \<not> isBouncing (markers st (act_marker act0))"
    and "\<And>tm. tm \<in> set (timers st) \<Longrightarrow> callback tm = Move a \<Longrightarrow> 1 \<le> t"
    and "\<And>tm. tm \<in> set (timers st) \<Longrightarrow> callback_act (callback tm) = a"
    and "length (filter (\<lambda>tm. phase_callback (callback tm)) (timers st)) \<le> 1"
    and "filter (\<lambda>tm. phase_callback (callback tm)) (timers st) = [] \<Longrightarrow>
           \<not> isBouncing (markers st (act_marker act0))"
  shows "run_inv a act0 st"
  unfolding run_inv_def phase_count_def using assms by auto

lemma potential_eq:
  assumes "activations st ! a = act0\<lparr>act_times := Some t\<rparr>" and "0 \<le> t"
  shows "potential a act0 st =
     sum_list (map (\<lambda>tm. weight (length (act_resizeSteps act0)) (callback tm)) (timers st))
     + (length (act_moveSteps act0) + length (act_resizeSteps act0) + 5) * nat t"
  using assms by (simp add: potential_def remaining_def)

lemma fire_step:
  assumes inv: "run_inv a act0 st" and k: "k < length (timers st)"
  shows "run_inv a act0 (fire k st) \<and> potential a act0 (fire k st) < potential a act0 st"
proof -
  let ?m = "act_marker act0"
  let ?nR = "length (act_resizeSteps act0)"
  let ?nM = "length (act_moveSteps act0)"
  let ?ph = "\<lambda>tm. phase_callback (callback tm)"
  let ?w = "\<lambda>tm. weight ?nR (callback tm)"
  let ?tm = "timers st ! k"
  let ?rest = "take k (timers st) @ drop (Suc k) (timers st)"
  let ?st' = "st\<lparr>timers := ?rest, clock := max (clock st) (due ?tm)\<rparr>"
  from inv obtain t where
    a: "a < length (activations st)" and t0: "0 \<le> t"
    and act: "activations st ! a = act0\<lparr>act_times := Some t\<rparr>"
    and tz: "t = 0 \<longrightarrow> \<not> isBouncing (markers st ?m)"
    and mv: "\<forall>tm \<in> set (timers st). callback tm = Move a \<longrightarrow> 1 \<le> t"
    and own: "\<forall>tm \<in> set (timers st). callback_act (callback tm) = a"
    and pc: "length (filter ?ph (timers st)) \<le> 1"
    and pz: "filter ?ph (timers st) = [] \<longrightarrow> \<not> isBouncing (markers st ?m)"
    unfolding run_inv_def phase_count_def by auto
  have tm_in: "?tm \<in> set (timers st)" using k by simp
  have sub: "set ?rest \<subseteq> set (timers st)" by (rule set_remove_nth)
  have W: "sum_list (map ?w (timers st)) = ?w ?tm + sum_list (map ?w ?rest)"
    using k by (rule sum_list_remove_nth)
  have P: "length (filter ?ph (timers st)) = (if ?ph ?tm then 1 else 0) + length (filter ?ph ?rest)"
    using k by (rule filter_remove_nth)
  have pot: "potential a act0 st = ?w ?tm + sum_list (map ?w ?rest) + (?nM + ?nR + 5) * nat t"
    using potential_eq [OF act t0] W by simp
  have fire: "fire k st = run_callback (callback ?tm) ?st'" by (simp add: fire_def)
  have act': "activations ?st' ! a = act0\<lparr>act_times := Some t\<rparr>" using act by simp
  have a': "a < length (activations ?st')" using a by simp
  have own_rest: "\<And>tm. tm \<in> set ?rest \<Longrightarrow> callback_act (callback tm) = a"
    using own sub by blast
  have mv_rest: "\<And>tm. tm \<in> set ?rest \<Longrightarrow> callback tm = Move a \<Longrightarrow> 1 \<le> t"
    using mv sub by blast
  have cb_a: "callback_act (callback ?tm) = a" using own tm_in by blast
  text \<open>A timer that fires and launches nothing.\<close>
  have quiet: "run_inv a act0 ?st' \<and> potential a act0 ?st' < potential a act0 st"
    if "?ph ?tm \<Longrightarrow> \<not> isBouncing (markers st ?m)"
  proof
    have "filter ?ph ?rest = [] \<Longrightarrow> \<not> isBouncing (markers ?st' ?m)"
    proof -
      assume e: "filter ?ph ?rest = []"
      show "\<not> isBouncing (markers ?st' ?m)"
      proof (cases "?ph ?tm")
        case True
        with that show ?thesis by simp
      next
        case False
        with P e have "filter ?ph (timers st) = []" by simp
        with pz show ?thesis by simp
      qed
    qed
    moreover have "length (filter ?ph (timers ?st')) \<le> 1" using P pc by simp
    ultimately show "run_inv a act0 ?st'"
      using a' act' t0 tz mv_rest own_rest
      by (intro run_inv_intro [where t = t]) simp_all
    have "potential a act0 ?st' = sum_list (map ?w ?rest) + (?nM + ?nR + 5) * nat t"
      using potential_eq [OF act' t0] by simp
    with pot weight_pos [of ?nR "callback ?tm"] show "potential a act0 ?st' < potential a act0 st"
      by simp
  qed
  text \<open>A timer that ends a phase and starts the movement again.\<close>
  have again: "run_inv a act0 (move a ?st') \<and> potential a act0 (move a ?st') < potential a act0 st"
    if ph: "?ph ?tm" and t1: "1 \<le> t" and w1: "?w ?tm = 1"
  proof -
    have at: "act_times (activations ?st' ! a) = Some t" using act' by simp
    from move_effect [OF at] obtain new d where
      tms: "timers (move a ?st') = ?rest @ new @ [\<lparr>due = d, callback = MoveEnd a\<rparr>]"
      and len: "length new = ?nM"
      and new: "\<forall>tm \<in> set new. callback_act (callback tm) = a \<and> \<not> phase_callback (callback tm)"
      and acts: "activations (move a ?st') =
          (activations ?st')[a := (activations ?st' ! a)\<lparr>act_times := Some (t - 1)\<rparr>]"
      and flag: "\<forall>q. isBouncing (markers (move a ?st') q) =
           (isBouncing (markers ?st' q) \<and> \<not> (t - 1 = 0 \<and> q = act_marker (activations ?st' ! a)))"
      using act' by auto
    have rest0: "filter ?ph ?rest = []" using P pc ph by simp
    have new0: "filter ?ph new = []" using new by (rule steps_no_phase)
    have wnew: "sum_list (map ?w new) = ?nM" using steps_weight [OF new] len by simp
    have a2: "a < length (activations (move a ?st'))" using acts a by simp
    have act2: "activations (move a ?st') ! a = act0\<lparr>act_times := Some (t - 1)\<rparr>"
      using acts a act by simp
    have t2: "0 \<le> t - 1" using t1 by simp
    have inv2: "run_inv a act0 (move a ?st')"
    proof (rule run_inv_intro [where t = "t - 1", OF a2 act2 t2])
      show "t - 1 = 0 \<Longrightarrow> \<not> isBouncing (markers (move a ?st') ?m)"
        using flag act by simp
    next
      fix tm assume "tm \<in> set (timers (move a ?st'))" and "callback tm = Move a"
      with tms rest0 new0 have False
        by (auto dest: no_phase_no_Move)
      then show "1 \<le> t - 1" ..
    next
      fix tm assume "tm \<in> set (timers (move a ?st'))"
      with tms own_rest new show "callback_act (callback tm) = a" by auto
    next
      show "length (filter ?ph (timers (move a ?st'))) \<le> 1"
        using tms rest0 new0 by simp
    next
      assume "filter ?ph (timers (move a ?st')) = []"
      with tms show "\<not> isBouncing (markers (move a ?st') ?m)" by simp
    qed
    have "potential a act0 (move a ?st') =
        sum_list (map ?w ?rest) + ?nM + (?nR + 3) + (?nM + ?nR + 5) * nat (t - 1)"
      using potential_eq [OF act2 t2] tms wnew by simp
    moreover have "nat t = Suc (nat (t - 1))" using t1 by simp
    ultimately have "potential a act0 (move a ?st') < potential a act0 st"
      using pot w1 by simp
    with inv2 show ?thesis ..
  qed
  show ?thesis
  proof (cases "callback ?tm")
    case (MakeMoveStep a' s)
    then show ?thesis using quiet fire by simp
  next
    case (MakeMoveStepNo3D a' s)
    then show ?thesis using quiet fire by simp
  next
    case (MakeResizeStep a' s)
    then show ?thesis using quiet fire by simp
  next
    case (Move a')
    with cb_a have [simp]: "a' = a" by simp
    from Move have "callback ?tm = Move a" by simp
    with mv tm_in have "1 \<le> t" by blast
    with again Move fire show ?thesis by simp
  next
    case (ResizeEnd a')
    with cb_a have [simp]: "a' = a" by simp
    show ?thesis
    proof (cases "isBouncing (markers st ?m)")
      case True
      with tz t0 have "1 \<le> t" by (cases "t = 0") auto
      with again ResizeEnd fire True act show ?thesis by simp
    next
      case False
      with quiet ResizeEnd fire act show ?thesis by simp
    qed
  next
    case (MoveEnd a')
    with cb_a have [simp]: "a' = a" by simp
    have ph: "?ph ?tm" using MoveEnd by simp
    have rest0: "filter ?ph ?rest = []" using P pc ph by simp
    have wtm: "?w ?tm = ?nR + 3" using MoveEnd by simp
    show ?thesis
    proof (cases "act_elastic act0 \<and> any3d st")
      case True
      from resize_effect [of a ?st'] obtain new d where
        tms: "timers (resize a ?st') = ?rest @ new @ [\<lparr>due = d, callback = ResizeEnd a\<rparr>]"
        and len: "length new = ?nR"
        and new: "\<forall>tm \<in> set new. callback_act (callback tm) = a \<and> \<not> phase_callback (callback tm)"
        and acts: "activations (resize a ?st') = activations ?st'"
        and mks: "markers (resize a ?st') = markers ?st'"
        using act' by auto
      have new0: "filter ?ph new = []" using new by (rule steps_no_phase)
      have wnew: "sum_list (map ?w new) = ?nR" using steps_weight [OF new] len by simp
      have a2: "a < length (activations (resize a ?st'))" using acts a by simp
      have act2: "activations (resize a ?st') ! a = act0\<lparr>act_times := Some t\<rparr>"
        using acts act by simp
      have inv2: "run_inv a act0 (resize a ?st')"
      proof (rule run_inv_intro [where t = t, OF a2 act2 t0])
        show "t = 0 \<Longrightarrow> \<not> isBouncing (markers (resize a ?st') ?m)"
          using mks tz by simp
      next
        fix tm assume "tm \<in> set (timers (resize a ?st'))" and "callback tm = Move a"
        with tms rest0 new0 have False
          by (auto dest: no_phase_no_Move)
        then show "1 \<le> t" ..
      next
        fix tm assume "tm \<in> set (timers (resize a ?st'))"
        with tms own_rest new show "callback_act (callback tm) = a" by auto
      next
        show "length (filter ?ph (timers (resize a ?st'))) \<le> 1"
          using tms rest0 new0 by simp
      next
        assume "filter ?ph (timers (resize a ?st')) = []"
        with tms show "\<not> isBouncing (markers (resize a ?st') ?m)" by simp
      qed
      have "potential a act0 (resize a ?st') =
          sum_list (map ?w ?rest) + ?nR + 1 + (?nM + ?nR + 5) * nat t"
        using potential_eq [OF act2 t0] tms wnew by simp
      with pot wtm have "potential a act0 (resize a ?st') < potential a act0 st" by simp
      with inv2 MoveEnd fire True act show ?thesis by simp
    next
      case False
      show ?thesis
      proof (cases "isBouncing (markers st ?m)")
        case bouncing: True
        with tz t0 have t1: "1 \<le> t" by (cases "t = 0") auto
        let ?st2 = "setTimeout (Move a) (Some (act_bounceSpeed act0)) ?st'"
        have act2: "activations ?st2 ! a = act0\<lparr>act_times := Some t\<rparr>" using act by simp
        have a2: "a < length (activations ?st2)" using a by simp
        have inv2: "run_inv a act0 ?st2"
        proof (rule run_inv_intro [where t = t, OF a2 act2 t0])
          show "t = 0 \<Longrightarrow> \<not> isBouncing (markers ?st2 ?m)" using tz by simp
        next
          fix tm assume "tm \<in> set (timers ?st2)" and "callback tm = Move a"
          show "1 \<le> t" by (rule t1)
        next
          fix tm assume "tm \<in> set (timers ?st2)"
          with own_rest show "callback_act (callback tm) = a" by auto
        next
          show "length (filter ?ph (timers ?st2)) \<le> 1" using rest0 by simp
        next
          assume "filter ?ph (timers ?st2) = []"
          then show "\<not> isBouncing (markers ?st2 ?m)" by simp
        qed
        have "potential a act0 ?st2 = sum_list (map ?w ?rest) + 1 + (?nM + ?nR + 5) * nat t"
          using potential_eq [OF act2 t0] by simp
        with pot wtm have "potential a act0 ?st2 < potential a act0 st" by simp
        with inv2 MoveEnd fire False bouncing act show ?thesis by (simp add: Let_def)
      next
        case stopped: False
        with quiet MoveEnd fire False act show ?thesis by (simp add: Let_def)
      qed
    qed
  qed
qed

subsection \<open>The event loop\<close>

lemma earliest_less: "ts \<noteq> [] \<Longrightarrow> earliest ts < length ts"
  by (induction ts) auto

lemma event_loop_idle: "timers st = [] \<Longrightarrow> event_loop k st = st"
  by (cases k) simp_all

lemma event_loop_add: "event_loop (j + k) st = event_loop k (event_loop j st)"
proof (induction j arbitrary: st)
  case 0
  show ?case by simp
next
  case (Suc j)
  show ?case
  proof (cases "timers st = []")
    case True
    then show ?thesis by (simp add: event_loop_idle)
  next
    case False
    with Suc show ?thesis by simp
  qed
qed

lemma event_loop_quiesces:
  "run_inv a act0 st \<Longrightarrow>
   \<exists>K. timers (event_loop K st) = [] \<and> run_inv a act0 (event_loop K st)"
proof (induction "potential a act0 st" arbitrary: st rule: less_induct)
  case less
  show ?case
  proof (cases "timers st = []")
    case True
    with less.prems show ?thesis by (intro exI [of _ 0]) simp
  next
    case False
    let ?st1 = "fire (earliest (timers st)) st"
    have "earliest (timers st) < length (timers st)" using False by (rule earliest_less)
    from fire_step [OF less.prems this]
    have inv1: "run_inv a act0 ?st1" and dec: "potential a act0 ?st1 < potential a act0 st"
      by simp_all
    from less.hyps [OF dec inv1] obtain K where
      K: "timers (event_loop K ?st1) = []" "run_inv a act0 (event_loop K ?st1)"
      by blast
    with False show ?thesis by (intro exI [of _ "Suc K"]) simp
  qed
qed

lemma run_inv_quiet:
  "run_inv a act0 st \<Longrightarrow> timers st = [] \<Longrightarrow> \<not> isBouncing (markers st (act_marker act0))"
  by (simp add: run_inv_def phase_count_def)

lemma bounce_run_inv:
  assumes "1 \<le> n" and "timers st = []"
  shows "\<exists>act0. act_marker act0 = m \<and>
           run_inv (length (activations st)) act0 (bounce m (Some n) st)"
proof -
  let ?opts = "bouncingOptions st m"
  let ?act = "\<lparr>act_marker = m, act_times = Some n, act_elastic = elastic ?opts,
               act_bounceSpeed = bounceSpeed ?opts,
               act_moveSteps = moveSteps (markers st m), act_moveDelays = moveDelays (markers st m),
               act_resizeSteps = resizeSteps (markers st m),
               act_resizeDelays = resizeDelays (markers st m)\<rparr>"
  let ?a = "length (activations st)"
  let ?st3 = "addBouncingMarker m (exclusif ?opts)
                (set_isBouncing m True (st\<lparr>activations := activations st @ [?act]\<rparr>))"
  have b: "bounce m (Some n) st = move ?a ?st3" by (simp add: bounce_def Let_def)
  have acts3: "activations ?st3 = activations st @ [?act]" by simp
  have tms3: "timers ?st3 = []" using assms(2) by simp
  have at: "act_times (activations ?st3 ! ?a) = Some n" using acts3 by simp
  from move_effect [OF at] obtain new d where
    tms: "timers (move ?a ?st3) = timers ?st3 @ new @ [\<lparr>due = d, callback = MoveEnd ?a\<rparr>]"
    and new: "\<forall>tm \<in> set new. callback_act (callback tm) = ?a \<and> \<not> phase_callback (callback tm)"
    and acts: "activations (move ?a ?st3) =
        (activations ?st3)[?a := (activations ?st3 ! ?a)\<lparr>act_times := Some (n - 1)\<rparr>]"
    and flag: "\<forall>q. isBouncing (markers (move ?a ?st3) q) =
         (isBouncing (markers ?st3 q) \<and> \<not> (n - 1 = 0 \<and> q = act_marker (activations ?st3 ! ?a)))"
    by auto
  have new0: "filter (\<lambda>tm. phase_callback (callback tm)) new = []"
    using new by (rule steps_no_phase)
  have a2: "?a < length (activations (move ?a ?st3))" using acts acts3 by simp
  have act2: "activations (move ?a ?st3) ! ?a = ?act\<lparr>act_times := Some (n - 1)\<rparr>"
    using acts acts3 by simp
  have t2: "0 \<le> n - 1" using assms(1) by simp
  have "run_inv ?a ?act (move ?a ?st3)"
  proof (rule run_inv_intro [where t = "n - 1", OF a2 act2 t2])
    show "n - 1 = 0 \<Longrightarrow> \<not> isBouncing (markers (move ?a ?st3) (act_marker ?act))"
      using flag acts3 by simp
  next
    fix tm assume "tm \<in> set (timers (move ?a ?st3))" and "callback tm = Move ?a"
    with tms tms3 new0 have False by (auto dest: no_phase_no_Move)
    then show "1 \<le> n - 1" ..
  next
    fix tm assume "tm \<in> set (timers (move ?a ?st3))"
    with tms tms3 new show "callback_act (callback tm) = ?a" by auto
  next
    show "length (filter (\<lambda>tm. phase_callback (callback tm)) (timers (move ?a ?st3))) \<le> 1"
      using tms tms3 new0 by simp
  next
    assume "filter (\<lambda>tm. phase_callback (callback tm)) (timers (move ?a ?st3)) = []"
    with tms show "\<not> isBouncing (markers (move ?a ?st3) (act_marker ?act))" by simp
  qed
  then show ?thesis unfolding b by (intro exI [of _ ?act]) simp
qed

lemma move_last_clears_flag:
  "act_times (activations st ! a) = Some 1 \<Longrightarrow>
   \<not> isBouncing (markers (move a st) (act_marker (activations st ! a)))"
  using move_effect [of st a 1] by auto

section \<open>Properties of the motion compiler\<close>

subsection \<open>Filling an array downwards\<close>

lemma update_last_hole: "(replicate (Suc k) x @ rest)[k := v] = replicate k x @ v # rest"
  by (induction k) simp_all

lemma js_assign_last_hole:
  "js_assign (replicate (Suc k) None @ rest) (int k) v = replicate k None @ v # rest"
  unfolding js_assign_def by (simp add: update_last_hole del: replicate.simps)

lemma fill_down_filled:
  assumes "\<And>j. 0 \<le> j \<Longrightarrow> j < d \<Longrightarrow> f j = Inr (g j)"
  shows "0 \<le> d \<Longrightarrow>
    fill_down f d (replicate (nat d) None @ rest) =
      Some (Inr (map (\<lambda>j. Some (g (int j))) [0..<nat d] @ rest))"
  using assms
proof (induction "nat d" arbitrary: d rest)
  case 0
  then have "d = 0" by simp
  then show ?case by (subst fill_down.simps) simp
next
  case (Suc n)
  then have pos: "0 < d" and n: "n = nat (d - 1)" by auto
  have fd: "f (d - 1) = Inr (g (d - 1))" using Suc.prems(2) [of "d - 1"] pos by simp
  have nd: "nat d = Suc (nat (d - 1))" using pos by simp
  have asg: "js_assign (replicate (nat d) None @ rest) (d - 1) (Some (g (d - 1))) =
      replicate (nat (d - 1)) None @ (Some (g (d - 1)) # rest)"
    using js_assign_last_hole [of "nat (d - 1)" rest "Some (g (d - 1))"] pos by (simp only: nd) simp
  have "fill_down f d (replicate (nat d) None @ rest) =
      fill_down f (d - 1) (replicate (nat (d - 1)) None @ (Some (g (d - 1)) # rest))"
    using pos fd asg by (subst fill_down.simps) simp
  also have "\<dots> = Some (Inr (map (\<lambda>j. Some (g (int j))) [0..<nat (d - 1)] @ (Some (g (d - 1)) # rest)))"
    using Suc.hyps(1) [OF n, of "Some (g (d - 1)) # rest"] Suc.prems(2) pos by simp
  also have "map (\<lambda>j. Some (g (int j))) [0..<nat (d - 1)] @ (Some (g (d - 1)) # rest) =
      map (\<lambda>j. Some (g (int j))) [0..<nat d] @ rest"
    using pos by (simp add: nd)
  finally show ?case .
qed

lemma fill_down_empty:
  assumes "\<And>j. 0 \<le> j \<Longrightarrow> j < d \<Longrightarrow> f j = Inr (g j)" and "0 \<le> d"
  shows "fill_down f d [] = Some (Inr (map (\<lambda>j. Some (g (int j))) [0..<nat d]))"
proof (cases "d = 0")
  case True
  then show ?thesis by (subst fill_down.simps) simp
next
  case False
  with assms(2) have pos: "0 < d" by simp
  have fd: "f (d - 1) = Inr (g (d - 1))" using assms(1) [of "d - 1"] pos by simp
  have nd: "nat d = Suc (nat (d - 1))" using pos by simp
  have asg: "js_assign [] (d - 1) (Some (g (d - 1))) =
      replicate (nat (d - 1)) None @ [Some (g (d - 1))]"
    using pos by (simp add: js_assign_def)
  have "fill_down f d [] = fill_down f (d - 1) (replicate (nat (d - 1)) None @ [Some (g (d - 1))])"
    using pos fd asg by (subst fill_down.simps) simp
  also have "\<dots> = Some (Inr (map (\<lambda>j. Some (g (int j))) [0..<nat (d - 1)] @ [Some (g (d - 1))]))"
    using assms(1) pos by (intro fill_down_filled) simp_all
  also have "map (\<lambda>j. Some (g (int j))) [0..<nat (d - 1)] @ [Some (g (d - 1))] =
      map (\<lambda>j. Some (g (int j))) [0..<nat d]"
    using pos by (simp add: nd)
  finally show ?thesis .
qed

lemma fill_down_raises:
  "d \<noteq> 0 \<Longrightarrow> f (d - 1) = Inl e \<Longrightarrow> fill_down f d t = Some (Inl e)"
  by (subst fill_down.simps) simp

subsection \<open>The arrays of transformations\<close>

lemma calculateIconMoveTransforms_returns:
  "0 \<le> bh + 1 \<Longrightarrow>
   \<exists>t. calculateIconMoveTransforms x y bh = Some (Inr t)"
  unfolding calculateIconMoveTransforms_def
  by (subst fill_down_empty [where g = "\<lambda>dY. \<lparr>scaleX = Some 1, scaleY = Some 1,
        translateX = x, translateY = y - dY\<rparr>"]) simp_all

lemma calculateIconResizeTransforms_eq:
  "0 \<le> ch + 1 \<Longrightarrow>
   calculateIconResizeTransforms x y height ch =
     Some (Inr (vertical_states x y height ch))"
  unfolding calculateIconResizeTransforms_def vertical_states_def
  by (subst fill_down_empty [where g = "\<lambda>dH. \<lparr>scaleX = Some 1,
        scaleY = js_div (height - dH) height, translateX = x, translateY = y + dH\<rparr>"]) simp_all

lemma calculateShadowMoveTransforms_returns:
  assumes "0 \<le> bh"
  shows "\<exists>t. calculateShadowMoveTransforms x y bh angle = Some (Inr t)"
proof -
  have "1 \<le> bh + 1" using assms by simp
  from calculateLine_to_points [OF this] obtain q where
    q: "calculateLine x y angle (bh + 1) = Some ((x, y) # q)"
       "int (length q) = bh + 1 - 1"
    unfolding calculateLine_def by blast
  let ?p = "(x, y) # q"
  let ?f = "\<lambda>dY. case point_at ?p dY of
                     Inl e \<Rightarrow> Inl e
                   | Inr pt \<Rightarrow> Inr \<lparr>scaleX = Some 1, scaleY = Some 1,
                                    translateX = fst pt, translateY = snd pt\<rparr>"
  let ?g = "\<lambda>dY. \<lparr>scaleX = Some 1, scaleY = Some 1,
                  translateX = fst (?p ! nat dY), translateY = snd (?p ! nat dY)\<rparr>"
  have "?f j = Inr (?g j)" if "0 \<le> j" "j < bh + 1" for j
    using that q(2) by (simp add: point_at_def)
  then have "fill_down ?f (bh + 1) [] =
      Some (Inr (map (\<lambda>j. Some (?g (int j))) [0..<nat (bh + 1)]))"
    using assms by (intro fill_down_empty) simp_all
  with q(1) show ?thesis by (simp add: calculateShadowMoveTransforms_def)
qed

lemma calculateShadowResizeTransforms_raises:
  assumes "1 \<le> ch"
  shows "calculateShadowResizeTransforms x y width height ch angle = Some (Inl TypeError)"
proof -
  from calculateLine_to_points [OF assms] obtain q where
    q: "calculateLine width height (angle + pi) ch = Some ((width, height) # q)"
       "int (length q) = ch - 1"
    unfolding calculateLine_def by blast
  let ?p = "(width, height) # q"
  have "point_at ?p (ch + 1 - 1) = Inl TypeError"
    using q(2) assms by (simp add: point_at_def)
  then show ?thesis
    using q(1) assms
    by (simp add: calculateShadowResizeTransforms_def fill_down_raises)
qed

lemma calculateTransforms_returns:
  assumes "any3d st"
    and "0 \<le> bounceHeight (bouncingOptions st m)"
    and "0 \<le> contractHeight (bouncingOptions st m)"
  shows "\<exists>imt smt. calculateTransforms m st =
     Some (Inr (st\<lparr>markers := (markers st)(m := (markers st m)
        \<lparr>iconMoveTransforms := imt,
         iconResizeTransforms := vertical_states (motion_x (markers st m)) (motion_y (markers st m))
            (iconSize_height (markers st m)) (contractHeight (bouncingOptions st m)),
         shadowMoveTransforms := smt,
         shadowResizeTransforms := vertical_states (motion_x (markers st m)) (motion_y (markers st m))
            (shadowSize_height (markers st m)) (contractHeight (bouncingOptions st m))\<rparr>)\<rparr>))"
proof -
  let ?o = "bouncingOptions st m" and ?mk = "markers st m"
  have b1: "0 \<le> bounceHeight ?o + 1" and c1: "0 \<le> contractHeight ?o + 1"
    using assms(2,3) by simp_all
  from calculateIconMoveTransforms_returns [OF b1] obtain imt where
    imt: "calculateIconMoveTransforms (motion_x ?mk) (motion_y ?mk) (bounceHeight ?o) = Some (Inr imt)"
    by blast
  from calculateShadowMoveTransforms_returns [OF assms(2)] obtain smt where
    smt: "calculateShadowMoveTransforms (motion_x ?mk) (motion_y ?mk) (bounceHeight ?o)
            (shadowAngle ?o) = Some (Inr smt)"
    by blast
  show ?thesis
    apply (rule exI [of _ imt])
    apply (rule exI [of _ smt])
    using assms(1) imt smt
    by (simp add: calculateTransforms_def Let_def calculateIconResizeTransforms_eq [OF c1])
qed

lemma calculateTransforms_no3d: "\<not> any3d st \<Longrightarrow> calculateTransforms m st = Some (Inl ReferenceError)"
  by (simp add: calculateTransforms_def Let_def calculateIconMovePoints_def)

lemma vertical_states_scaleX:
  "Some tr \<in> set (vertical_states x y height ch) \<Longrightarrow> scaleX tr = Some 1"
  by (auto simp: vertical_states_def)

subsection \<open>Setting the options of a marker\<close>

lemma setBouncingOptions_returns:
  assumes "any3d st" and "timeline_cache (cache st)"
    and "1 \<le> bounceHeight (merge_options arg (prototype_options st))"
    and "1 \<le> contractHeight (merge_options arg (prototype_options st))"
  shows "\<exists>st'. setBouncingOptions m arg st = Some (Inr st') \<and>
           own_options (markers st' m) = Some (merge_options arg (prototype_options st)) \<and>
           prototype_options st' = prototype_options st"
proof -
  let ?merged = "merge_options arg (prototype_options st)"
  let ?st1 = "st\<lparr>markers := (markers st)(m := (markers st m)\<lparr>own_options := Some ?merged\<rparr>)\<rparr>"
  have o1: "bouncingOptions ?st1 m = ?merged" by (simp add: bouncingOptions_def)
  have "timeline_cache (cache ?st1)" using assms(2) by simp
  from calculateTimeline_returns [OF this, of m] assms(3,4) obtain st2 where
    st2: "calculateTimeline m ?st1 = Some st2" "any3d st2 = any3d st"
      "own_options (markers st2 m) = Some ?merged" "prototype_options st2 = prototype_options st"
    unfolding o1 by auto
  have o2: "bouncingOptions st2 m = ?merged" using st2(3) by (simp add: bouncingOptions_def)
  have "any3d st2" using st2(2) assms(1) by simp
  from calculateTransforms_returns [OF this, of m] assms(3,4) obtain st3 where
    st3: "calculateTransforms m st2 = Some (Inr st3)"
      "own_options (markers st3 m) = own_options (markers st2 m)"
      "prototype_options st3 = prototype_options st2"
    unfolding o2 by auto
  show ?thesis
    using st2 st3 by (simp add: setBouncingOptions_def Let_def)
qed

lemma setBouncingOptions_hangs:
  assumes "timeline_cache (cache st)"
    and "bounceHeight (merge_options arg (prototype_options st)) = 0"
  shows "setBouncingOptions m arg st = None"
proof -
  let ?merged = "merge_options arg (prototype_options st)"
  let ?st1 = "st\<lparr>markers := (markers st)(m := (markers st m)\<lparr>own_options := Some ?merged\<rparr>)\<rparr>"
  have o1: "bouncingOptions ?st1 m = ?merged" by (simp add: bouncingOptions_def)
  have sp: "''moveSteps_'' \<in> steps_prefixes" by (simp add: steps_prefixes_def)
  from calculateSteps_timeline_cache [OF assms(1) sp, of 0] obtain c1 where
    c1: "timeline_cache c1" "calculateSteps (cache st) 0 ''moveSteps_'' = Some ([], c1)"
    by auto
  have "delays_key_ok c1 0 (bounceSpeed ?merged) ''moveDelays_''"
    using c1(1) by (rule delays_key_ok_prefixes)
  then have "calculateDelays c1 0 (bounceSpeed ?merged) ''moveDelays_'' = None"
    by (simp add: calculateDelays_result compute_delays_diverges)
  with c1(2) assms(2) have "calculateTimeline m ?st1 = None"
    by (simp add: calculateTimeline_def Let_def o1)
  then show ?thesis by (simp add: setBouncingOptions_def Let_def)
qed

subsection \<open>The cache stays well built\<close>

text \<open>Every path to the cache goes through \<open>_calculateTimeline\<close>, which keeps it well built.\<close>

lemma calculateTimeline_cache:
  assumes "calculateTimeline m st = Some st'" and "timeline_cache (cache st)"
  shows "timeline_cache (cache st')"
proof -
  let ?o = "bouncingOptions st m"
  have sp: "''moveSteps_'' \<in> steps_prefixes" "''resizeSteps_'' \<in> steps_prefixes"
    by (simp_all add: steps_prefixes_def)
  have dp: "''moveDelays_'' \<in> delays_prefixes" "''resizeDelays_'' \<in> delays_prefixes"
    by (simp_all add: delays_prefixes_def)
  from assms(1) obtain ms c1 md c2 rs c3 rd c4 where
    s1: "calculateSteps (cache st) (bounceHeight ?o) ''moveSteps_'' = Some (ms, c1)"
    and s2: "calculateDelays c1 (bounceHeight ?o) (bounceSpeed ?o) ''moveDelays_'' = Some (md, c2)"
    and s3: "calculateSteps c2 (contractHeight ?o) ''resizeSteps_'' = Some (rs, c3)"
    and s4: "calculateDelays c3 (contractHeight ?o) (contractSpeed ?o) ''resizeDelays_'' = Some (rd, c4)"
    and st': "cache st' = c4"
    by (auto simp: calculateTimeline_def Let_def split: option.splits prod.splits)
  from assms(2) sp(1) s1 have "timeline_cache c1" by (rule timeline_cache.after_steps)
  from this dp(1) s2 have "timeline_cache c2" by (rule timeline_cache.after_delays)
  from this sp(2) s3 have "timeline_cache c3" by (rule timeline_cache.after_steps)
  from this dp(2) s4 have "timeline_cache c4" by (rule timeline_cache.after_delays)
  with st' show ?thesis by simp
qed

lemma calculateTransforms_cache:
  "calculateTransforms m st = Some (Inr st') \<Longrightarrow> cache st' = cache st"
  by (auto simp: calculateTransforms_def Let_def split: option.splits sum.splits if_splits)

lemma setBouncingOptions_cache:
  assumes "setBouncingOptions m arg st = Some (Inr st')" and "timeline_cache (cache st)"
  shows "timeline_cache (cache st')"
proof -
  let ?st1 = "st\<lparr>markers := (markers st)(m := (markers st m)
                   \<lparr>own_options := Some (merge_options arg (prototype_options st))\<rparr>)\<rparr>"
  from assms(1) obtain st2 where
    st2: "calculateTimeline m ?st1 = Some st2" "calculateTransforms m st2 = Some (Inr st')"
    by (auto simp: setBouncingOptions_def Let_def split: option.splits)
  have "timeline_cache (cache ?st1)" using assms(2) by simp
  with st2(1) have "timeline_cache (cache st2)" by (rule calculateTimeline_cache)
  with calculateTransforms_cache [OF st2(2)] show ?thesis by simp
qed

lemma initialize_cache:
  assumes "initialize m st = Some st'" and "timeline_cache (cache st)"
  shows "timeline_cache (cache st')"
proof -
  have "timeline_cache (cache (st\<lparr>markers := (markers st)(m := new_marker)\<rparr>))"
    using assms(2) by simp
  with assms(1) show ?thesis unfolding initialize_def by (rule calculateTimeline_cache)
qed

lemma scheduler_cache:
  "cache (move a st) = cache st" "cache (resize a st) = cache st"
  "cache (bounce m t st) = cache st" "cache (stopBouncing m st) = cache st"
  by (simp_all add: move_def resize_def bounce_def stopBouncing_def Let_def split: option.splits)

section \<open>Claims about the timeline calculator\<close>

text \<open>
  C3. For an extent \<open>h\<close> of at least 1, \<open>calculateSteps\<close> returns the sequence
  \<open>1, 2, \<dots>, h, h - 1, \<dots>, 1, 0\<close>, which has \<open>2h\<close> elements. The key is any string when the
  cache has no entry under it, and any of the prefixes of \<open>_calculateTimeline\<close> in a cache the
  module has built.
\<close>

theorem calculateSteps_sequence:
  assumes "1 \<le> h" and "steps_key_ok c h prefix"
  shows "\<exists>steps c'. calculateSteps c h prefix = Some (steps, c') \<and>
           steps = map Some ([1..h] @ rev [0..h - 1]) \<and> int (length steps) = 2 * h"
  using assms by (simp add: calculateSteps_result compute_steps_eq)

text \<open>The extent 3 on the empty cache: the sequence is \<open>1, 2, 3, 2, 1, 0\<close>.\<close>

theorem calculateSteps_sequence_witness:
  "(1::int) \<le> 3 \<and> steps_key_ok Map.empty 3 ''moveSteps_'' \<and>
   (\<exists>steps c'. calculateSteps Map.empty 3 ''moveSteps_'' = Some (steps, c') \<and>
      steps = [Some 1, Some 2, Some 3, Some 2, Some 1, Some 0] \<and> int (length steps) = 2 * 3)"
proof -
  have k: "steps_key_ok Map.empty 3 ''moveSteps_''" by (simp add: steps_key_ok_def)
  have u: "[1..3::int] = [1, 2, 3]" "[0..3 - 1::int] = [0, 1, 2]" by (simp_all add: upto.simps)
  from calculateSteps_sequence [of 3 Map.empty "''moveSteps_''"] k u show ?thesis by simp
qed

text \<open>
  C1, as stated, fails: for extent 1 and speed 1 the delays are \<open>0, 1, 1\<close>, three of them and
  not two. The deltas occupy the positions \<open>0\<close> to \<open>h\<close>, the way back appends \<open>h\<close> more, and
  the running totals are taken over all of \<open>deltas.length\<close>.
\<close>

theorem calculateDelays_length_counterexample:
  "map_option fst (calculateDelays Map.empty 1 1 ''moveDelays_'') = Some [Some 0, Some 1, Some 1] \<and>
   length [Some 0, Some 1, Some (1::int)] \<noteq> 2 * 1"
  by code_simp

text \<open>
  C1, amended. For an extent \<open>h\<close> of at least 1 and any speed, the array returned by
  \<open>calculateDelays\<close> has \<open>2h + 1\<close> elements.
\<close>

theorem calculateDelays_length:
  assumes "1 \<le> h" and "delays_key_ok c h s prefix"
  shows "\<exists>delays c'. calculateDelays c h s prefix = Some (delays, c') \<and>
           int (length delays) = 2 * h + 1"
  using assms by (simp add: calculateDelays_result compute_delays_eq)

text \<open>The default bounce, height 15 and speed 52: 31 delays.\<close>

theorem calculateDelays_length_witness:
  "(1::int) \<le> 15 \<and> delays_key_ok Map.empty 15 52 ''moveDelays_'' \<and>
   (\<exists>delays c'. calculateDelays Map.empty 15 52 ''moveDelays_'' = Some (delays, c') \<and>
           int (length delays) = 2 * 15 + 1)"
proof -
  have k: "delays_key_ok Map.empty 15 52 ''moveDelays_''" by (simp add: delays_key_ok_def)
  from calculateDelays_length [of 15 Map.empty 52 "''moveDelays_''"] k show ?thesis by simp
qed






section \<open>Claim about the line\<close>

text \<open>
  C7. For every origin, every angle and every length of at least 1, \<open>calculateLine\<close>
  returns, and what it returns has exactly \<open>length\<close> points, the first of them the origin.
  The second half says the same for every end point the rounding may produce.
\<close>

theorem calculateLine_points:
  assumes "1 \<le> len"
  shows "(\<exists>p. calculateLine x y angle len = Some p \<and> int (length p) = len \<and> p ! 0 = (x, y)) \<and>
         (\<forall>xD yD. \<exists>p. calculateLine_to x y xD yD len = Some p \<and> int (length p) = len \<and> p ! 0 = (x, y))"
proof -
  have "\<exists>p. calculateLine_to x y xD yD len = Some p \<and> int (length p) = len \<and> p ! 0 = (x, y)"
    for xD yD
    using calculateLine_to_points [OF assms, of x y xD yD] by auto
  then show ?thesis by (simp add: calculateLine_def)
qed

text \<open>Five points from \<open>(10, 20)\<close> along the default shadow angle.\<close>

theorem calculateLine_points_witness:
  "(1::int) \<le> 5 \<and>
   (\<exists>p. calculateLine 10 20 (- pi / 4) 5 = Some p \<and> int (length p) = 5 \<and> p ! 0 = (10, 20)) \<and>
   (\<forall>xD yD. \<exists>p. calculateLine_to 10 20 xD yD 5 = Some p \<and> int (length p) = 5 \<and> p ! 0 = (10, 20))"
proof -
  have "(1::int) \<le> 5" by simp
  from calculateLine_points [OF this, of 10 20 "- pi / 4"] show ?thesis by simp
qed

section \<open>Claims about the registry\<close>

text \<open>
  C5. \<open>_addBouncingMarker\<close> called with the flag, or for a marker whose options have
  \<open>exclusif\<close>, stops every registered marker and leaves the registry with that marker alone.
  Called without the flag for a marker \<open>n\<close> that is not exclusive, it stops and removes the
  registered markers that are exclusive, keeps the others untouched and appends \<open>n\<close>. Two
  such markers added one after the other are both registered, after those that stayed; on a
  registry that held no non-exclusive marker the result is exactly \<open>[m1, m2]\<close>.
\<close>

theorem addBouncingMarker_policy:
  "(f \<or> exclusif (bouncingOptions st m) \<longrightarrow>
      bouncingMarkers (addBouncingMarker m f st) = [m] \<and>
      (\<forall>q \<in> set (bouncingMarkers st). \<not> isBouncing (markers (addBouncingMarker m f st) q))) \<and>
   (\<not> exclusif (bouncingOptions st n) \<longrightarrow>
      bouncingMarkers (addBouncingMarker n False st) =
        filter (\<lambda>q. \<not> exclusif (bouncingOptions st q)) (bouncingMarkers st) @ [n] \<and>
      (\<forall>q \<in> set (bouncingMarkers st). exclusif (bouncingOptions st q) \<longrightarrow>
         \<not> isBouncing (markers (addBouncingMarker n False st) q)) \<and>
      (\<forall>q. \<not> exclusif (bouncingOptions st q) \<longrightarrow>
         markers (addBouncingMarker n False st) q = markers st q)) \<and>
   (\<not> exclusif (bouncingOptions st m1) \<and> \<not> exclusif (bouncingOptions st m2) \<longrightarrow>
      bouncingMarkers (addBouncingMarker m2 False (addBouncingMarker m1 False st)) =
        filter (\<lambda>q. \<not> exclusif (bouncingOptions st q)) (bouncingMarkers st) @ [m1, m2] \<and>
      ((\<forall>q \<in> set (bouncingMarkers st). exclusif (bouncingOptions st q)) \<longrightarrow>
         bouncingMarkers (addBouncingMarker m2 False (addBouncingMarker m1 False st)) = [m1, m2]))"
proof (intro conjI impI)
  assume "f \<or> exclusif (bouncingOptions st m)"
  then show "bouncingMarkers (addBouncingMarker m f st) = [m]"
    by (simp add: addBouncingMarker_registry_eq)
next
  assume "f \<or> exclusif (bouncingOptions st m)"
  then show "\<forall>q \<in> set (bouncingMarkers st). \<not> isBouncing (markers (addBouncingMarker m f st) q)"
    by (simp add: addBouncingMarker_isBouncing)
next
  assume "\<not> exclusif (bouncingOptions st n)"
  then show "bouncingMarkers (addBouncingMarker n False st) =
        filter (\<lambda>q. \<not> exclusif (bouncingOptions st q)) (bouncingMarkers st) @ [n]"
    by (simp add: addBouncingMarker_registry_eq)
next
  assume "\<not> exclusif (bouncingOptions st n)"
  then show "\<forall>q \<in> set (bouncingMarkers st). exclusif (bouncingOptions st q) \<longrightarrow>
         \<not> isBouncing (markers (addBouncingMarker n False st) q)"
    by (simp add: addBouncingMarker_isBouncing)
next
  assume "\<not> exclusif (bouncingOptions st n)"
  then show "\<forall>q. \<not> exclusif (bouncingOptions st q) \<longrightarrow>
         markers (addBouncingMarker n False st) q = markers st q"
    by (simp add: addBouncingMarker_other)
next
  assume a: "\<not> exclusif (bouncingOptions st m1) \<and> \<not> exclusif (bouncingOptions st m2)"
  then show eq: "bouncingMarkers (addBouncingMarker m2 False (addBouncingMarker m1 False st)) =
        filter (\<lambda>q. \<not> exclusif (bouncingOptions st q)) (bouncingMarkers st) @ [m1, m2]"
    by (simp add: addBouncingMarker_registry_eq)
  assume "\<forall>q \<in> set (bouncingMarkers st). exclusif (bouncingOptions st q)"
  then have "filter (\<lambda>q. \<not> exclusif (bouncingOptions st q)) (bouncingMarkers st) = []"
    by (simp add: filter_empty_conv)
  with eq show "bouncingMarkers (addBouncingMarker m2 False (addBouncingMarker m1 False st)) = [m1, m2]"
    by simp
qed

text \<open>
  On the sample page: marker 2 added with the flag, marker 2 added without it, markers 2 and
  3 added without it.
\<close>

theorem addBouncingMarker_policy_witness:
  "(True \<or> exclusif (bouncingOptions sample_page 2)) \<and>
   \<not> exclusif (bouncingOptions sample_page 2) \<and>
   \<not> exclusif (bouncingOptions sample_page 3) \<and>
   bouncingMarkers sample_page = [1] \<and> exclusif (bouncingOptions sample_page 1) \<and>
   bouncingMarkers (addBouncingMarker 2 True sample_page) = [2] \<and>
   \<not> isBouncing (markers (addBouncingMarker 2 True sample_page) 1) \<and>
   bouncingMarkers (addBouncingMarker 2 False sample_page) = [2] \<and>
   \<not> isBouncing (markers (addBouncingMarker 2 False sample_page) 1) \<and>
   bouncingMarkers (addBouncingMarker 3 False (addBouncingMarker 2 False sample_page)) = [2, 3]"
  using addBouncingMarker_policy [of True sample_page 2 2 2 3]
  by (simp add: sample_page_simps)

text \<open>
  C4, as stated, fails: \<open>bounce\<close> has no test for a marker that is already bouncing. A
  marker just constructed, with the default options, bounced twice is registered twice.
\<close>

theorem bounce_twice_counterexample:
  "map_option (bouncingMarkers \<circ> bounce 0 None \<circ> bounce 0 None) (initialize 0 (loaded True))
     = Some [0, 0] \<and>
   \<not> distinct [0::nat, 0]"
proof -
  from initialize_loaded [of 0 True] obtain st where
    st: "initialize 0 (loaded True) = Some st" "bouncingMarkers st = []"
      "\<forall>q. bouncingOptions st q = default_options"
    by blast
  have "\<not> exclusif default_options" by (simp add: default_options_def)
  with st(2,3) have "bouncingMarkers (bounce 0 None (bounce 0 None st)) = [0, 0]"
    by (simp add: bounce_registry_eq)
  with st(1) show ?thesis by simp
qed

text \<open>
  C4, amended. \<open>bounce\<close> always appends the marker to what \<open>_addBouncingMarker\<close> left of
  the registry. A registry without duplicates stays so under \<open>stopBouncing\<close>,
  \<open>stopBouncingMarkers\<close> and the timer callbacks, and under \<open>bounce\<close> of a marker that is
  not registered or is exclusive.
\<close>

theorem registry_distinct:
  assumes "distinct (bouncingMarkers st)"
  shows "distinct (bouncingMarkers (stopBouncing m st)) \<and>
         distinct (bouncingMarkers (stopBouncingMarkers st)) \<and>
         distinct (bouncingMarkers (fire k st)) \<and>
         (m \<notin> set (bouncingMarkers st) \<or> exclusif (bouncingOptions st m) \<longrightarrow>
            distinct (bouncingMarkers (bounce m t st))) \<and>
         bouncingMarkers (bounce m t st) =
           (if exclusif (bouncingOptions st m) then []
            else filter (\<lambda>q. \<not> exclusif (bouncingOptions st q)) (bouncingMarkers st)) @ [m]"
  using assms
  by (auto simp: stopBouncing_registry_eq remove_loop_distinct bounce_registry_eq)

text \<open>On the sample page, for marker 2, which is not registered.\<close>

theorem registry_distinct_witness:
  "distinct (bouncingMarkers sample_page) \<and>
   2 \<notin> set (bouncingMarkers sample_page) \<and>
   distinct (bouncingMarkers (stopBouncing 2 sample_page)) \<and>
   distinct (bouncingMarkers (stopBouncingMarkers sample_page)) \<and>
   distinct (bouncingMarkers (fire 0 sample_page)) \<and>
   distinct (bouncingMarkers (bounce 2 None sample_page)) \<and>
   bouncingMarkers (bounce 2 None sample_page) = [2]"
proof -
  have d: "distinct (bouncingMarkers sample_page)" by (simp add: sample_page_simps)
  from registry_distinct [OF d, of 2 0 None] d show ?thesis
    by (simp add: sample_page_simps)
qed

section \<open>Claim about the scheduler\<close>

text \<open>
  C10. A marker is bounced with a finite count of at least 1 while no timer is pending.
  Then the event loop reaches a state with no timer left, hence the animation is over, and
  from then on the marker's flag is down while the marker is still in the array that
  \<open>getBouncingMarkers\<close> returns. The marker is in that array after any number of turns. The
  flag goes down in the call of \<open>move\<close> that counts the last repetition, and no timer
  callback changes the registry.
\<close>

theorem finite_bounce_stays_registered:
  assumes "1 \<le> n" and "timers st = []"
  shows "(\<exists>K. \<forall>k \<ge> K.
            timers (event_loop k (bounce m (Some n) st)) = [] \<and>
            \<not> isBouncing (markers (event_loop k (bounce m (Some n) st)) m) \<and>
            m \<in> set (getBouncingMarkers (event_loop k (bounce m (Some n) st)))) \<and>
         (\<forall>k. m \<in> set (getBouncingMarkers (event_loop k (bounce m (Some n) st)))) \<and>
         (\<forall>st' a. act_times (activations st' ! a) = Some 1 \<longrightarrow>
            \<not> isBouncing (markers (move a st') (act_marker (activations st' ! a)))) \<and>
         (\<forall>st' k. bouncingMarkers (fire k st') = bouncingMarkers st')"
proof -
  let ?st1 = "bounce m (Some n) st"
  have reg: "m \<in> set (getBouncingMarkers (event_loop k ?st1))" for k
    by (simp add: getBouncingMarkers_def bounce_registry_eq)
  from bounce_run_inv [OF assms, of m] obtain act0 where
    act0: "act_marker act0 = m" "run_inv (length (activations st)) act0 ?st1"
    by blast
  from event_loop_quiesces [OF act0(2)] obtain K where
    K: "timers (event_loop K ?st1) = []"
       "run_inv (length (activations st)) act0 (event_loop K ?st1)"
    by blast
  have "\<forall>k \<ge> K. timers (event_loop k ?st1) = [] \<and>
            \<not> isBouncing (markers (event_loop k ?st1) m) \<and>
            m \<in> set (getBouncingMarkers (event_loop k ?st1))"
  proof (intro allI impI)
    fix k assume "K \<le> k"
    then obtain j where "k = K + j" by (auto simp: le_iff_add)
    then have "event_loop k ?st1 = event_loop K ?st1"
      using K(1) by (simp add: event_loop_add event_loop_idle)
    with K act0(1) run_inv_quiet [OF K(2) K(1)] reg [of k]
    show "timers (event_loop k ?st1) = [] \<and>
            \<not> isBouncing (markers (event_loop k ?st1) m) \<and>
            m \<in> set (getBouncingMarkers (event_loop k ?st1))"
      by simp
  qed
  then show ?thesis using reg move_last_clears_flag by auto
qed

text \<open>A marker constructed on the page just loaded, bounced twice.\<close>

theorem finite_bounce_stays_registered_witness:
  "\<exists>st. initialize 0 (loaded True) = Some st \<and> (1::int) \<le> 2 \<and> timers st = [] \<and>
     (\<exists>K. \<forall>k \<ge> K.
        timers (event_loop k (bounce 0 (Some 2) st)) = [] \<and>
        \<not> isBouncing (markers (event_loop k (bounce 0 (Some 2) st)) 0) \<and>
        0 \<in> set (getBouncingMarkers (event_loop k (bounce 0 (Some 2) st))))"
proof -
  from initialize_loaded [of 0 True] obtain st where
    st: "initialize 0 (loaded True) = Some st" "timers st = []"
    by blast
  have h: "(1::int) \<le> 2" by simp
  note c = finite_bounce_stays_registered [OF h st(2), of 0, THEN conjunct1]
  from st h c show ?thesis by blast
qed

section \<open>Claims about the compiler and the configuration\<close>

text \<open>
  C8 describes what the comment \<open>TODO: use function calculateShadowResizeTransforms\<close> asks
  for, not what \<open>_calculateTransforms\<close> does. For a marker just constructed and placed at
  the origin on a browser with 3D transforms, the states compiled for the contraction of the
  shadow are those of \<open>calculateIconResizeTransforms\<close> on the height of the shadow. They
  are not those of \<open>calculateShadowResizeTransforms\<close>, which on this marker raises: its
  line has \<open>contractHeight\<close> points and its loop starts by reading the point number
  \<open>contractHeight\<close>.
\<close>

theorem shadow_resize_states_are_vertical:
  "map_option (map_sum id (\<lambda>st. shadowResizeTransforms (markers st 0)))
     (Option.bind (initialize 0 (loaded True)) (setPos 0 (0, 0)))
     = calculateIconResizeTransforms 0 0 41 12 \<and>
   calculateShadowResizeTransforms 0 0 41 41 12 (- pi / 4) = Some (Inl TypeError) \<and>
   calculateIconResizeTransforms 0 0 41 12 \<noteq> calculateShadowResizeTransforms 0 0 41 41 12 (- pi / 4)"
proof -
  from initialize_loaded [of 0 True] obtain st where
    st: "initialize 0 (loaded True) = Some st" "any3d st"
      "bouncingOptions st 0 = default_options"
      "own_options (markers st 0) = None" "prototype_options st = default_options"
      "shadowSize_height (markers st 0) = 41"
    by auto
  let ?st1 = "st\<lparr>markers := (markers st)(0 := (markers st 0)
      \<lparr>motion_x := fst (0 :: int, 0 :: int), motion_y := snd (0 :: int, 0 :: int)\<rparr>)\<rparr>"
  have o: "bouncingOptions ?st1 0 = default_options"
    using st(4,5) by (simp add: bouncingOptions_def)
  have a: "any3d ?st1" using st(2) by simp
  have h: "0 \<le> bounceHeight (bouncingOptions ?st1 0)" "0 \<le> contractHeight (bouncingOptions ?st1 0)"
    unfolding o by (simp_all add: default_options_def)
  from calculateTransforms_returns [OF a h] obtain st2 where
    st2: "calculateTransforms 0 ?st1 = Some (Inr st2)"
      "shadowResizeTransforms (markers st2 0) =
         vertical_states (motion_x (markers ?st1 0)) (motion_y (markers ?st1 0))
           (shadowSize_height (markers ?st1 0)) (contractHeight (bouncingOptions ?st1 0))"
    by auto
  have v: "shadowResizeTransforms (markers st2 0) = vertical_states 0 0 41 12"
    unfolding st2(2) o using st(6) by (simp add: default_options_def)
  have i: "calculateIconResizeTransforms 0 0 41 12 = Some (Inr (vertical_states 0 0 41 12))"
    by (rule calculateIconResizeTransforms_eq) simp
  have one: "map_option (map_sum id (\<lambda>st. shadowResizeTransforms (markers st 0)))
     (Option.bind (initialize 0 (loaded True)) (setPos 0 (0, 0)))
     = calculateIconResizeTransforms 0 0 41 12"
    using st(1) st2(1) v i by (simp add: setPos_def)
  have two: "calculateShadowResizeTransforms 0 0 41 41 12 (- pi / 4) = Some (Inl TypeError)"
    by (rule calculateShadowResizeTransforms_raises) simp
  from one two i show ?thesis by simp
qed

text \<open>
  C9, as stated, fails: the code checks nothing. A marker just constructed is given a bounce
  speed of 0; the call returns and the marker's options hold the speed 0. Given a bounce
  height of 0, the call does not return at all.
\<close>

theorem setBouncingOptions_counterexample:
  "map_option (map_sum id (\<lambda>st. map_option bounceSpeed (own_options (markers st 0))))
     (Option.bind (initialize 0 (loaded True))
        (setBouncingOptions 0 (no_options\<lparr>arg_bounceSpeed := Some 0\<rparr>)))
     = Some (Inr (Some 0)) \<and>
   Option.bind (initialize 0 (loaded True))
     (setBouncingOptions 0 (no_options\<lparr>arg_bounceHeight := Some 0\<rparr>)) = None"
proof -
  from initialize_loaded [of 0 True] obtain st where
    st: "initialize 0 (loaded True) = Some st" "timeline_cache (cache st)" "any3d st"
      "prototype_options st = default_options"
    by auto
  let ?slow = "no_options\<lparr>arg_bounceSpeed := Some 0\<rparr>"
  let ?flat = "no_options\<lparr>arg_bounceHeight := Some 0\<rparr>"
  have m: "merge_options ?slow default_options = default_options\<lparr>bounceSpeed := 0\<rparr>"
    by (simp add: merge_options_def no_options_def default_options_def)
  have h: "1 \<le> bounceHeight (merge_options ?slow (prototype_options st))"
    "1 \<le> contractHeight (merge_options ?slow (prototype_options st))"
    unfolding st(4) m by (simp_all add: default_options_def)
  from setBouncingOptions_returns [OF st(3) st(2) h, of 0] obtain st' where
    st': "setBouncingOptions 0 ?slow st = Some (Inr st')"
      "own_options (markers st' 0) = Some (merge_options ?slow (prototype_options st))"
    by blast
  have one: "map_option (map_sum id (\<lambda>st. map_option bounceSpeed (own_options (markers st 0))))
     (Option.bind (initialize 0 (loaded True)) (setBouncingOptions 0 ?slow)) = Some (Inr (Some 0))"
    using st(1) st' unfolding st(4) m by simp
  have "bounceHeight (merge_options ?flat (prototype_options st)) = 0"
    by (simp add: merge_options_def no_options_def)
  from setBouncingOptions_hangs [OF st(2) this, of 0] st(1)
  have two: "Option.bind (initialize 0 (loaded True)) (setBouncingOptions 0 ?flat) = None"
    by simp
  from one two show ?thesis ..
qed

text \<open>
  C9, amended. \<open>setBouncingOptions\<close> checks nothing. On a browser with 3D transforms, with
  a bounce height and a contraction height of at least 1 and with any speeds, it returns
  without raising, the marker's options are the values passed over the prototype's, and in
  particular hold the speeds passed, whatever their sign.
\<close>

theorem setBouncingOptions_unchecked:
  assumes "any3d st" and "timeline_cache (cache st)"
    and "1 \<le> bounceHeight (merge_options arg (prototype_options st))"
    and "1 \<le> contractHeight (merge_options arg (prototype_options st))"
  shows "\<exists>st'. setBouncingOptions m arg st = Some (Inr st') \<and>
           own_options (markers st' m) = Some (merge_options arg (prototype_options st)) \<and>
           (\<forall>v. arg_bounceSpeed arg = Some v \<longrightarrow> bounceSpeed (bouncingOptions st' m) = v) \<and>
           (\<forall>v. arg_contractSpeed arg = Some v \<longrightarrow> contractSpeed (bouncingOptions st' m) = v)"
proof -
  from setBouncingOptions_returns [OF assms, of m] obtain st' where
    st': "setBouncingOptions m arg st = Some (Inr st')"
      "own_options (markers st' m) = Some (merge_options arg (prototype_options st))"
    by blast
  have "bouncingOptions st' m = merge_options arg (prototype_options st)"
    using st'(2) by (simp add: bouncingOptions_def)
  then have "(\<forall>v. arg_bounceSpeed arg = Some v \<longrightarrow> bounceSpeed (bouncingOptions st' m) = v) \<and>
           (\<forall>v. arg_contractSpeed arg = Some v \<longrightarrow> contractSpeed (bouncingOptions st' m) = v)"
    by (simp add: merge_options_def)
  with st' show ?thesis by blast
qed

text \<open>A bounce speed of \<open>-5\<close> set on a marker of the page just loaded.\<close>

theorem setBouncingOptions_unchecked_witness:
  "any3d (loaded True) \<and> timeline_cache (cache (loaded True)) \<and>
   1 \<le> bounceHeight (merge_options (no_options\<lparr>arg_bounceSpeed := Some (- 5)\<rparr>)
          (prototype_options (loaded True))) \<and>
   1 \<le> contractHeight (merge_options (no_options\<lparr>arg_bounceSpeed := Some (- 5)\<rparr>)
          (prototype_options (loaded True))) \<and>
   (\<exists>st'. setBouncingOptions 0 (no_options\<lparr>arg_bounceSpeed := Some (- 5)\<rparr>) (loaded True)
             = Some (Inr st') \<and>
           bounceSpeed (bouncingOptions st' 0) = - 5)"
proof -
  let ?arg = "no_options\<lparr>arg_bounceSpeed := Some (- 5)\<rparr>"
  have h: "any3d (loaded True)" "timeline_cache (cache (loaded True))"
    "1 \<le> bounceHeight (merge_options ?arg (prototype_options (loaded True)))"
    "1 \<le> contractHeight (merge_options ?arg (prototype_options (loaded True)))"
    by (simp_all add: timeline_cache.fresh merge_options_def no_options_def default_options_def)
  have s: "arg_bounceSpeed ?arg = Some (- 5)" by simp
  from setBouncingOptions_unchecked [OF h, of 0] s
  have "\<exists>st'. setBouncingOptions 0 ?arg (loaded True) = Some (Inr st') \<and>
           bounceSpeed (bouncingOptions st' 0) = - 5"
    by blast
  with h show ?thesis by (intro conjI)
qed

end
